theory Spec2Isabelle
  imports
    Complex_Main
    "HOL-Library.Char_ord"
    "HOL-Library.List_Lexorder"
    "HOL-Library.Product_Lexorder"
    "HOL-Library.Multiset"
begin

section \<open>Python primitives used by the printer scripts\<close>

text \<open>
  The exceptions that the modelled code can raise and does not catch itself.
\<close>

datatype error =
  ValueError | ZeroDivisionError | OverflowError | EOFError | FileNotFoundError_raised | OtherError_raised

text \<open>
  \<^verbatim>\<open>range(start, stop, step)\<close>: a zero step raises \<^verbatim>\<open>ValueError\<close>; otherwise the
  object holds its length and the \<open>k\<close>-th element is \<open>start + k * step\<close>.
\<close>

definition range_len :: "int \<Rightarrow> int \<Rightarrow> int \<Rightarrow> nat" where
  "range_len start stop step =
     (if 0 < step
      then (if start < stop then nat ((stop - start - 1) div step + 1) else 0)
      else (if stop < start then nat ((start - stop - 1) div (- step) + 1) else 0))"

definition py_range :: "int \<Rightarrow> int \<Rightarrow> int \<Rightarrow> error + int list" where
  "py_range start stop step =
     (if step = 0 then Inl ValueError
      else Inr (map (\<lambda>k. start + int k * step) [0..<range_len start stop step]))"

text \<open>
  \<^verbatim>\<open>xs[i:j]\<close>: a negative bound counts from the end, and both bounds are clamped to
  the list; a slice never raises.
\<close>

definition slice_bound :: "nat \<Rightarrow> int \<Rightarrow> nat" where
  "slice_bound n i = (if i < 0 then nat (max 0 (i + int n)) else min n (nat i))"

definition py_slice :: "'a list \<Rightarrow> int \<Rightarrow> int \<Rightarrow> 'a list" where
  "py_slice xs i j =
     (let lo = slice_bound (length xs) i; hi = slice_bound (length xs) j
      in take (hi - lo) (drop lo xs))"

section \<open>Batching\<close>

text \<open>
  \<^verbatim>\<open>[found[i:i + batch_size] for i in range(0, len(found), batch_size)]\<close>, the
  comprehension of \<^verbatim>\<open>show_preview\<close>, \<^verbatim>\<open>_print_thread\<close> and \<^verbatim>\<open>print_pdfs\<close>; the loop
  of \<^verbatim>\<open>print_pdfs_in_batches\<close> takes the same slices at the same indices.
\<close>

definition batches :: "'a list \<Rightarrow> int \<Rightarrow> error + 'a list list" where
  "batches pdf_files batch_size =
     (case py_range 0 (int (length pdf_files)) batch_size of
        Inl e \<Rightarrow> Inl e
      | Inr idx \<Rightarrow> Inr (map (\<lambda>i. py_slice pdf_files i (i + batch_size)) idx))"

section \<open>The print run: state, backend and trace\<close>

text \<open>
  What \<^verbatim>\<open>subprocess.run(['lp', path], capture_output=True, text=True, check=True)\<close>
  can do: return, raise \<^verbatim>\<open>CalledProcessError\<close> (non-zero exit, with the captured
  stderr), raise \<^verbatim>\<open>FileNotFoundError\<close> (no \<^verbatim>\<open>lp\<close> executable), or raise any other
  exception (\<open>OtherError\<close>): \<^verbatim>\<open>PermissionError\<close> when the \<^verbatim>\<open>lp\<close> on the path may not be
  executed, \<^verbatim>\<open>UnicodeDecodeError\<close> when its output cannot be decoded. An interrupt from the
  keyboard is a \<^verbatim>\<open>BaseException\<close> and outside the model.
\<close>

datatype lp_result = Completed | CalledProcessError string | FileNotFoundError | OtherError

text \<open>
  The two kinds of \<^verbatim>\<open>time.sleep\<close> call in the sources: \<^verbatim>\<open>time.sleep(0.5)\<close> and a sleep
  of a whole number of seconds.
\<close>

datatype delay = Half_second | Seconds int

text \<open>
  The trace of a run, oldest event first: a call of the print backend on a file with
  whether it reported success, a sleep, a read of the \<^verbatim>\<open>is_printing\<close> flag with the
  value read.
\<close>

datatype event = Submit string bool | Sleep delay | Poll bool

text \<open>
  The loop variables (\<^verbatim>\<open>successful_prints\<close>/\<^verbatim>\<open>failed_prints\<close>,
  \<^verbatim>\<open>successful_count\<close>/\<^verbatim>\<open>error_count\<close>, \<^verbatim>\<open>successful\<close>/\<^verbatim>\<open>failed\<close>,
  \<^verbatim>\<open>printed_count\<close>), the trace so far and the state of the outside world (spooler,
  user, other threads), which the backend and the flag reads depend on and change.
\<close>

record 'w run =
  successful :: nat
  failed :: nat
  trace :: "event list"
  world :: 'w

type_synonym 'w outcome = "(error \<times> 'w run) + 'w run"

definition start_run :: "'w \<Rightarrow> 'w run" where
  "start_run w = \<lparr>successful = 0, failed = 0, trace = [], world = w\<rparr>"

definition emit :: "event \<Rightarrow> 'w run \<Rightarrow> 'w run" where
  "emit e s = s\<lparr>trace := trace s @ [e]\<rparr>"

text \<open>Recording one file's outcome: the counter and the trace entry.\<close>

definition tally :: "string \<Rightarrow> bool \<Rightarrow> 'w \<Rightarrow> 'w run \<Rightarrow> 'w run" where
  "tally path ok w s =
     (if ok then s\<lparr>successful := successful s + 1, trace := trace s @ [Submit path True], world := w\<rparr>
      else s\<lparr>failed := failed s + 1, trace := trace s @ [Submit path False], world := w\<rparr>)"

text \<open>
  \<^verbatim>\<open>time.sleep(secs)\<close> raises \<^verbatim>\<open>ValueError\<close> for a negative argument and
  \<^verbatim>\<open>OverflowError\<close> for one that is too large for the platform's clock. \<open>sleep_max\<close> is
  the largest whole number of seconds that the interpreter at hand accepts; it comes from
  the interpreter, not from the scripts, and is a parameter here. The sleeps of 0.5, 2 and
  3 seconds written in the scripts are accepted everywhere.
\<close>

definition time_sleep :: "int \<Rightarrow> delay \<Rightarrow> 'w run \<Rightarrow> 'w outcome" where
  "time_sleep sleep_max d s =
     (case d of
        Half_second \<Rightarrow> Inr (emit (Sleep Half_second) s)
      | Seconds n \<Rightarrow>
          if n < 0 then Inl (ValueError, s)
          else if sleep_max < n then Inl (OverflowError, s)
          else Inr (emit (Sleep (Seconds n)) s))"

text \<open>
  The limit of an interpreter that holds a delay as a signed 64-bit number of nanoseconds.
\<close>

definition int64_seconds :: int where
  "int64_seconds = 9223372036"

text \<open>Reading the trace.\<close>

fun submitted :: "event list \<Rightarrow> (string \<times> bool) list" where
  "submitted [] = []"
| "submitted (Submit p ok # es) = (p, ok) # submitted es"
| "submitted (_ # es) = submitted es"

fun sleeps :: "event list \<Rightarrow> delay list" where
  "sleeps [] = []"
| "sleeps (Sleep d # es) = d # sleeps es"
| "sleeps (_ # es) = sleeps es"

definition attempted :: "'w run \<Rightarrow> nat" where
  "attempted s = length (submitted (trace s))"

definition inter_file_sleeps :: "event list \<Rightarrow> nat" where
  "inter_file_sleeps es = length (filter (\<lambda>d. d = Half_second) (sleeps es))"


section \<open>\<^verbatim>\<open>batch_pdf_printer.py\<close>\<close>

text \<open>
  \<^verbatim>\<open>print_pdf\<close>: \<^verbatim>\<open>CalledProcessError\<close> and \<^verbatim>\<open>FileNotFoundError\<close> are caught and turned
  into \<^verbatim>\<open>False\<close>; there is no other \<^verbatim>\<open>except\<close> clause, so any other exception leaves
  the function. (Logging is not modelled anywhere in this theory.)
\<close>

definition print_pdf ::
  "(string \<Rightarrow> 'w \<Rightarrow> lp_result \<times> 'w) \<Rightarrow> string \<Rightarrow> 'w \<Rightarrow> (error + bool) \<times> 'w" where
  "print_pdf lp file_path w =
     (case lp file_path w of
        (Completed, w') \<Rightarrow> (Inr True, w')
      | (CalledProcessError err, w') \<Rightarrow> (Inr False, w')
      | (FileNotFoundError, w') \<Rightarrow> (Inr False, w')
      | (OtherError, w') \<Rightarrow> (Inl OtherError_raised, w'))"

text \<open>
  The body of \<^verbatim>\<open>for pdf_file in batch\<close>, and that loop. An exception that leaves
  \<^verbatim>\<open>print_pdf\<close> leaves both iterations as well: the call is in the trace, and neither
  counter has moved.
\<close>

definition print_one :: "(string \<Rightarrow> 'w \<Rightarrow> lp_result \<times> 'w) \<Rightarrow> string \<Rightarrow> 'w run \<Rightarrow> 'w outcome" where
  "print_one lp pdf_file s =
     (case print_pdf lp pdf_file (world s) of
        (Inr ok, w') \<Rightarrow> Inr (tally pdf_file ok w' s)
      | (Inl e, w') \<Rightarrow> Inl (e, s\<lparr>trace := trace s @ [Submit pdf_file False], world := w'\<rparr>))"

fun print_batch :: "(string \<Rightarrow> 'w \<Rightarrow> lp_result \<times> 'w) \<Rightarrow> string list \<Rightarrow> 'w run \<Rightarrow> 'w outcome" where
  "print_batch lp [] s = Inr s"
| "print_batch lp (pdf_file # batch) s =
     (case print_one lp pdf_file s of
        Inl e \<Rightarrow> Inl e
      | Inr s1 \<Rightarrow> print_batch lp batch s1)"

text \<open>
  The pause that ends an iteration of \<^verbatim>\<open>for i in range(0, total_files, batch_size)\<close>,
  and that loop over the indices the range yields.
\<close>

definition batch_pause :: "string list \<Rightarrow> int \<Rightarrow> int \<Rightarrow> 'w run \<Rightarrow> 'w run" where
  "batch_pause pdf_files batch_size i s =
     (if i + batch_size < int (length pdf_files) then emit (Sleep (Seconds 2)) s else s)"

fun batch_loop ::
  "(string \<Rightarrow> 'w \<Rightarrow> lp_result \<times> 'w) \<Rightarrow> string list \<Rightarrow> int \<Rightarrow> int list \<Rightarrow> 'w run \<Rightarrow> 'w outcome" where
  "batch_loop lp pdf_files batch_size [] s = Inr s"
| "batch_loop lp pdf_files batch_size (i # idx) s =
     (case print_batch lp (py_slice pdf_files i (i + batch_size)) s of
        Inl e \<Rightarrow> Inl e
      | Inr s1 \<Rightarrow> batch_loop lp pdf_files batch_size idx (batch_pause pdf_files batch_size i s1))"

definition print_pdfs_in_batches ::
  "(string \<Rightarrow> 'w \<Rightarrow> lp_result \<times> 'w) \<Rightarrow> string list \<Rightarrow> int \<Rightarrow> 'w \<Rightarrow> 'w outcome" where
  "print_pdfs_in_batches lp pdf_files batch_size w =
     (case py_range 0 (int (length pdf_files)) batch_size of
        Inl e \<Rightarrow> Inl (e, start_run w)
      | Inr idx \<Rightarrow> batch_loop lp pdf_files batch_size idx (start_run w))"

section \<open>\<^verbatim>\<open>batch_pdf_printer_windows.py\<close>\<close>

text \<open>
  \<^verbatim>\<open>os.startfile(path, "print")\<close> returns nothing or raises; \<^verbatim>\<open>print_pdf_file\<close> catches
  every \<^verbatim>\<open>Exception\<close>. The backend gives \<open>None\<close> for a normal return and the
  exception's message otherwise.
\<close>

definition print_pdf_file :: "(string \<Rightarrow> 'w \<Rightarrow> string option \<times> 'w) \<Rightarrow> string \<Rightarrow> 'w \<Rightarrow> bool \<times> 'w" where
  "print_pdf_file startfile pdf_path w =
     (case startfile pdf_path w of
        (None, w') \<Rightarrow> (True, w')
      | (Some msg, w') \<Rightarrow> (False, w'))"

text \<open>
  \<^verbatim>\<open>for i, (pdf_path, relative_path) in enumerate(pdf_files)\<close>. \<^verbatim>\<open>batch_num\<close> and
  \<^verbatim>\<open>file_in_batch\<close> are computed first in every iteration, so a zero \<^verbatim>\<open>batch_size\<close>
  raises before the file is printed.
\<close>

fun win_loop ::
  "int \<Rightarrow> (string \<Rightarrow> 'w \<Rightarrow> string option \<times> 'w) \<Rightarrow> nat \<Rightarrow> int \<Rightarrow> int
     \<Rightarrow> (nat \<times> string \<times> string) list \<Rightarrow> 'w run \<Rightarrow> 'w outcome" where
  "win_loop sleep_max startfile total_files batch_size delay_between_batches [] s = Inr s"
| "win_loop sleep_max startfile total_files batch_size delay_between_batches
       ((i, pdf_path, relative_path) # rest) s =
     (if batch_size = 0 then Inl (ZeroDivisionError, s)
      else case print_pdf_file startfile pdf_path (world s) of (ok, w') \<Rightarrow>
        (case time_sleep sleep_max Half_second (tally pdf_path ok w' s) of
           Inl e \<Rightarrow> Inl e
         | Inr s1 \<Rightarrow>
             if (int i + 1) mod batch_size = 0 \<and> i + 1 < total_files
             then (case time_sleep sleep_max (Seconds delay_between_batches) s1 of
                     Inl e \<Rightarrow> Inl e
                   | Inr s2 \<Rightarrow>
                       win_loop sleep_max startfile total_files batch_size delay_between_batches rest s2)
             else win_loop sleep_max startfile total_files batch_size delay_between_batches rest s1))"

definition enumerate_from :: "nat \<Rightarrow> 'a list \<Rightarrow> (nat \<times> 'a) list" where
  "enumerate_from n xs = zip [n..<n + length xs] xs"

definition win_print_pdfs_in_batches ::
  "int \<Rightarrow> (string \<Rightarrow> 'w \<Rightarrow> string option \<times> 'w) \<Rightarrow> (string \<times> string) list \<Rightarrow> int \<Rightarrow> int \<Rightarrow> 'w
     \<Rightarrow> 'w outcome" where
  "win_print_pdfs_in_batches sleep_max startfile pdf_files batch_size delay_between_batches w =
     win_loop sleep_max startfile (length pdf_files) batch_size delay_between_batches
       (enumerate_from 0 pdf_files) (start_run w)"

section \<open>\<^verbatim>\<open>gui_pdf_printer.py\<close>: the print thread\<close>

text \<open>
  \<^verbatim>\<open>self.is_printing\<close> is written by the GUI thread (\<^verbatim>\<open>stop_printing\<close>) while the print
  thread runs, so every read of it is a step of the outside world: \<open>poll\<close> gives the
  value read and the world after the read. The backend here is
  \<^verbatim>\<open>subprocess.run(['lp', pdf_file], ..., check=True, timeout=60)\<close>; \<open>None\<close> stands for
  \<^verbatim>\<open>TimeoutExpired\<close>.
\<close>

definition read_flag :: "('w \<Rightarrow> bool \<times> 'w) \<Rightarrow> 'w run \<Rightarrow> bool \<times> 'w run" where
  "read_flag poll s =
     (case poll (world s) of (v, w') \<Rightarrow> (v, s\<lparr>trace := trace s @ [Poll v], world := w'\<rparr>))"

text \<open>
  \<^verbatim>\<open>for pdf_file in batch\<close> of \<^verbatim>\<open>_print_thread\<close>: the flag is read first; then
  \<^verbatim>\<open>os.path.relpath(pdf_file, ...)\<close> is computed, which raises \<^verbatim>\<open>ValueError\<close> for an empty
  path; a \<^verbatim>\<open>CalledProcessError\<close> and a \<^verbatim>\<open>TimeoutExpired\<close> count as failed; nothing
  catches \<^verbatim>\<open>FileNotFoundError\<close> or any other exception, which ends the thread.
\<close>

fun gui_batch ::
  "('w \<Rightarrow> bool \<times> 'w) \<Rightarrow> (string \<Rightarrow> 'w \<Rightarrow> lp_result option \<times> 'w) \<Rightarrow> string list \<Rightarrow> 'w run \<Rightarrow> 'w outcome" where
  "gui_batch poll lp [] s = Inr s"
| "gui_batch poll lp (pdf_file # batch) s =
     (case read_flag poll s of (is_printing, s1) \<Rightarrow>
        if \<not> is_printing then Inr s1
        else if pdf_file = [] then Inl (ValueError, s1)
        else (case lp pdf_file (world s1) of
                (Some Completed, w') \<Rightarrow> gui_batch poll lp batch (tally pdf_file True w' s1)
              | (Some (CalledProcessError err), w') \<Rightarrow> gui_batch poll lp batch (tally pdf_file False w' s1)
              | (None, w') \<Rightarrow> gui_batch poll lp batch (tally pdf_file False w' s1)
              | (Some FileNotFoundError, w') \<Rightarrow>
                  Inl (FileNotFoundError_raised,
                       s1\<lparr>trace := trace s1 @ [Submit pdf_file False], world := w'\<rparr>)
              | (Some OtherError, w') \<Rightarrow>
                  Inl (OtherError_raised,
                       s1\<lparr>trace := trace s1 @ [Submit pdf_file False], world := w'\<rparr>)))"

text \<open>
  \<^verbatim>\<open>for batch_num, batch in enumerate(batches, 1)\<close>. The inner \<^verbatim>\<open>break\<close> leaves only
  the inner loop; the pause test reads the flag only when \<^verbatim>\<open>batch_num < len(batches)\<close>.
\<close>

fun gui_loop ::
  "('w \<Rightarrow> bool \<times> 'w) \<Rightarrow> (string \<Rightarrow> 'w \<Rightarrow> lp_result option \<times> 'w) \<Rightarrow> nat
     \<Rightarrow> (nat \<times> string list) list \<Rightarrow> 'w run \<Rightarrow> 'w outcome" where
  "gui_loop poll lp len_batches [] s = Inr s"
| "gui_loop poll lp len_batches ((batch_num, batch) # rest) s =
     (case read_flag poll s of (is_printing, s1) \<Rightarrow>
        if \<not> is_printing then Inr s1
        else (case gui_batch poll lp batch s1 of
                Inl e \<Rightarrow> Inl e
              | Inr s2 \<Rightarrow>
                  if batch_num < len_batches
                  then (case read_flag poll s2 of (still_printing, s3) \<Rightarrow>
                          if still_printing
                          then gui_loop poll lp len_batches rest (emit (Sleep (Seconds 3)) s3)
                          else gui_loop poll lp len_batches rest s3)
                  else gui_loop poll lp len_batches rest s2))"

text \<open>
  \<^verbatim>\<open>_print_thread\<close>. \<open>batch_var\<close> is the result of \<^verbatim>\<open>int(self.batch_var.get())\<close>:
  \<open>None\<close> when the text is no integer, which raises \<^verbatim>\<open>ValueError\<close>. A returned state
  is what \<^verbatim>\<open>_print_finished(successful, failed)\<close> is called with.
\<close>

definition print_thread ::
  "('w \<Rightarrow> bool \<times> 'w) \<Rightarrow> (string \<Rightarrow> 'w \<Rightarrow> lp_result option \<times> 'w) \<Rightarrow> string list \<Rightarrow> int option \<Rightarrow> 'w
     \<Rightarrow> 'w outcome" where
  "print_thread poll lp found_pdfs batch_var w =
     (case batch_var of
        None \<Rightarrow> Inl (ValueError, start_run w)
      | Some batch_size \<Rightarrow>
          (case batches found_pdfs batch_size of
             Inl e \<Rightarrow> Inl (e, start_run w)
           | Inr bs \<Rightarrow> gui_loop poll lp (length bs) (enumerate_from 1 bs) (start_run w)))"

section \<open>\<^verbatim>\<open>gui_pdf_printer_windows.py\<close>: the print worker\<close>

text \<open>
  \<^verbatim>\<open>for i, (pdf_path, _, _) in enumerate(self.found_pdfs)\<close> of \<^verbatim>\<open>print_worker\<close>; of each
  entry only the path is used, so the list here is the list of paths. The
  worker keeps one counter, \<^verbatim>\<open>printed_count\<close> (here \<open>successful\<close>); a raising
  \<^verbatim>\<open>os.startfile\<close> is logged and counted nowhere, and the same handler swallows the
  \<^verbatim>\<open>ZeroDivisionError\<close> of a zero batch size, after the file was counted and before any
  sleep.
\<close>

fun worker_loop ::
  "('w \<Rightarrow> bool \<times> 'w) \<Rightarrow> (string \<Rightarrow> 'w \<Rightarrow> string option \<times> 'w) \<Rightarrow> nat \<Rightarrow> int
     \<Rightarrow> (nat \<times> string) list \<Rightarrow> 'w run \<Rightarrow> 'w run" where
  "worker_loop poll startfile total_files batch_size [] s = s"
| "worker_loop poll startfile total_files batch_size ((i, pdf_path) # rest) s =
     (case read_flag poll s of (is_printing, s1) \<Rightarrow>
        if \<not> is_printing then s1
        else (case startfile pdf_path (world s1) of
                (Some msg, w') \<Rightarrow>
                  worker_loop poll startfile total_files batch_size rest
                    (s1\<lparr>trace := trace s1 @ [Submit pdf_path False], world := w'\<rparr>)
              | (None, w') \<Rightarrow>
                  (let s2 = s1\<lparr>successful := successful s1 + 1,
                                trace := trace s1 @ [Submit pdf_path True], world := w'\<rparr>
                   in if batch_size = 0
                      then worker_loop poll startfile total_files batch_size rest s2
                      else if (int i + 1) mod batch_size = 0 \<and> i + 1 < total_files
                      then worker_loop poll startfile total_files batch_size rest (emit (Sleep (Seconds 3)) s2)
                      else worker_loop poll startfile total_files batch_size rest (emit (Sleep Half_second) s2))))"

text \<open>
  \<^verbatim>\<open>print_worker\<close>: the loop, then one more read of the flag (the completion message is
  shown only when it is still set).
\<close>

definition print_worker ::
  "('w \<Rightarrow> bool \<times> 'w) \<Rightarrow> (string \<Rightarrow> 'w \<Rightarrow> string option \<times> 'w) \<Rightarrow> string list \<Rightarrow> int \<Rightarrow> 'w
     \<Rightarrow> bool \<times> 'w run" where
  "print_worker poll startfile found_pdfs batch_size w =
     read_flag poll
       (worker_loop poll startfile (length found_pdfs) batch_size
          (enumerate_from 0 found_pdfs) (start_run w))"

section \<open>\<^verbatim>\<open>interactive_pdf_printer.py\<close>: \<^verbatim>\<open>print_pdfs\<close>\<close>




section \<open>Discovery and ordering (\<^verbatim>\<open>batch_pdf_printer.py\<close>)\<close>

text \<open>
  Strings are byte strings here; Python compares \<^verbatim>\<open>str\<close> by code point, and the order of
  UTF-8 byte strings is the order of the code points. \<^verbatim>\<open>str.lower\<close> is modelled on ASCII
  letters only.
\<close>

definition lower_char :: "char \<Rightarrow> char" where
  "lower_char c = (if CHR ''A'' \<le> c \<and> c \<le> CHR ''Z'' then char_of (of_char c + (32::nat)) else c)"

definition lower :: "string \<Rightarrow> string" where
  "lower s = map lower_char s"

definition endswith :: "string \<Rightarrow> string \<Rightarrow> bool" where
  "endswith s suffix \<longleftrightarrow> length suffix \<le> length s \<and> drop (length s - length suffix) s = suffix"

text \<open>\<^verbatim>\<open>os.path.join\<close> of two components (\<^verbatim>\<open>posixpath\<close>).\<close>

definition os_path_join :: "string \<Rightarrow> string \<Rightarrow> string" where
  "os_path_join a b =
     (if take 1 b = ''/'' then b
      else if a = [] \<or> last a = CHR ''/'' then a @ b
      else a @ ''/'' @ b)"

text \<open>
  A directory as \<^verbatim>\<open>os.walk\<close> sees it: the names of its non-directory entries and its
  subdirectories, each in the order the operating system lists them.
\<close>

datatype tree = Dir "string list" "(string \<times> tree) list"

text \<open>
  \<^verbatim>\<open>find_pdf_files\<close>: \<^verbatim>\<open>os.walk\<close> is top-down, so the caller's \<^verbatim>\<open>dirs.sort()\<close> fixes
  the order in which the subdirectories are entered.
\<close>

fun find_pdf_files :: "string \<Rightarrow> tree \<Rightarrow> (string \<times> string) list" where
  "find_pdf_files root_dir (Dir files dirs) =
     map (\<lambda>pdf_file. (root_dir, pdf_file)) (sort (filter (\<lambda>f. endswith (lower f) ''.pdf'') files))
     @ concat (map (\<lambda>d. find_pdf_files (os_path_join root_dir (fst d)) (snd d)) (sort_key fst dirs))"

text \<open>
  \<^verbatim>\<open>sort_pdf_files\<close> sorts the list object it is given, in place, and builds the joined
  paths from it. The store maps a reference to the list it holds; \<^verbatim>\<open>list.sort\<close> is a
  stable sort, as \<^const>\<open>sort_key\<close> is. Tuples are compared first component first and
  strings character by character, a proper prefix coming first, which is the order of
  pairs and of lists used here.
\<close>

type_synonym ref = nat
type_synonym store = "ref \<Rightarrow> (string \<times> string) list"

definition list_sort :: "ref \<Rightarrow> store \<Rightarrow> store" where
  "list_sort r h = h(r := sort_key (\<lambda>x. (fst x, snd x)) (h r))"

definition sort_pdf_files :: "ref \<Rightarrow> store \<Rightarrow> string list \<times> store" where
  "sort_pdf_files pdf_files h =
     (let h' = list_sort pdf_files h
      in (map (\<lambda>(directory, filename). os_path_join directory filename) (h' pdf_files), h'))"

section \<open>The command-line entry points\<close>

text \<open>What \<^verbatim>\<open>input(...)\<close> does: return a line, or raise.\<close>

datatype console = Typed string | KeyboardInterrupt | EndOfFile

text \<open>
  The parsed arguments of \<^verbatim>\<open>batch_pdf_printer.py\<close>. \<^verbatim>\<open>--batch-size\<close> is declared with
  \<^verbatim>\<open>type=int\<close> and nothing else, so any integer arrives here.
\<close>

record args =
  directory :: string
  batch_size :: int
  dry_run :: bool

text \<open>
  How a process ends: \<^verbatim>\<open>sys.exit(n)\<close>, or a return from \<^verbatim>\<open>main\<close> at the end of the
  script (\<open>Exit 0\<close>); or an exception that nothing catches, which prints a traceback and
  gives status 1.
\<close>

datatype exit = Exit int | Uncaught error

fun exit_status :: "exit \<Rightarrow> int" where
  "exit_status (Exit n) = n"
| "exit_status (Uncaught e) = 1"

text \<open>
  \<^verbatim>\<open>main\<close> of \<^verbatim>\<open>batch_pdf_printer.py\<close>: how the process ends, and the run it made.
  \<open>fs\<close> gives the tree under a path that is a directory. \<^verbatim>\<open>print_pdfs_in_batches\<close>
  returns nothing, and \<^verbatim>\<open>main\<close> ends after it.
\<close>

definition main ::
  "(string \<Rightarrow> 'w \<Rightarrow> lp_result \<times> 'w) \<Rightarrow> (string \<Rightarrow> tree option) \<Rightarrow> console \<Rightarrow> args \<Rightarrow> 'w \<Rightarrow> exit \<times> 'w run" where
  "main lp fs response a w =
     (case fs (directory a) of
        None \<Rightarrow> (Exit 1, start_run w)
      | Some t \<Rightarrow>
          (let pdf_files_tuples = find_pdf_files (directory a) t
           in if pdf_files_tuples = [] then (Exit 0, start_run w)
              else
                (let sorted_pdf_files = fst (sort_pdf_files 0 (\<lambda>r. pdf_files_tuples))
                 in if dry_run a then (Exit 0, start_run w)
                    else (case response of
                            KeyboardInterrupt \<Rightarrow> (Exit 0, start_run w)
                          | EndOfFile \<Rightarrow> (Uncaught EOFError, start_run w)
                          | Typed r \<Rightarrow>
                              if lower r \<notin> set [''y'', ''yes''] then (Exit 0, start_run w)
                              else (case print_pdfs_in_batches lp sorted_pdf_files (batch_size a) w of
                                      Inl (e, s) \<Rightarrow> (Uncaught e, s)
                                    | Inr s \<Rightarrow> (Exit 0, s))))))"

text \<open>
  The parsed arguments of \<^verbatim>\<open>batch_pdf_printer_windows.py\<close> and what its \<^verbatim>\<open>main\<close> asks
  of the machine: \<^verbatim>\<open>platform.system()\<close>, \<^verbatim>\<open>os.path.exists\<close> and \<^verbatim>\<open>os.path.isdir\<close> of
  the directory, \<^verbatim>\<open>check_windows_printer()\<close> (\<open>None\<close> when it raises \<^verbatim>\<open>RuntimeError\<close>),
  and the list \<^verbatim>\<open>find_pdf_files\<close> returns.
\<close>

record win_args =
  win_directory :: string
  win_batch_size :: int
  win_delay :: int
  win_dry_run :: bool
  win_verbose :: bool
  win_list_only :: bool

record machine =
  platform_system :: string
  path_exists :: bool
  path_isdir :: bool
  default_printer :: "string option"
  found :: "(string \<times> string) list"

text \<open>
  \<^verbatim>\<open>main\<close> of \<^verbatim>\<open>batch_pdf_printer_windows.py\<close> together with the \<^verbatim>\<open>__main__\<close> block, which
  passes the returned code to \<^verbatim>\<open>sys.exit\<close> and answers every exception with
  \<^verbatim>\<open>sys.exit(1)\<close>. The library functions \<^verbatim>\<open>str.strip\<close> and \<^verbatim>\<open>str.upper\<close> applied to the
  confirmation are parameters.
\<close>

definition win_main ::
  "(string \<Rightarrow> string) \<Rightarrow> (string \<Rightarrow> string) \<Rightarrow> int \<Rightarrow> (string \<Rightarrow> 'w \<Rightarrow> string option \<times> 'w)
     \<Rightarrow> machine \<Rightarrow> console \<Rightarrow> win_args \<Rightarrow> 'w \<Rightarrow> exit \<times> 'w run" where
  "win_main str_strip str_upper sleep_max startfile m confirm a w =
     (if platform_system m \<noteq> ''Windows'' then (Exit 1, start_run w)
      else if \<not> path_exists m then (Exit 1, start_run w)
      else if \<not> path_isdir m then (Exit 1, start_run w)
      else if \<not> win_dry_run a \<and> \<not> win_list_only a \<and> default_printer m = None then (Exit 1, start_run w)
      else if found m = [] then (Exit 0, start_run w)
      else if win_list_only a then (Exit 0, start_run w)
      else if win_dry_run a then (if win_batch_size a = 0 then (Exit 1, start_run w) else (Exit 0, start_run w))
      else (case confirm of
              KeyboardInterrupt \<Rightarrow> (Exit 0, start_run w)
            | EndOfFile \<Rightarrow> (Exit 1, start_run w)
            | Typed line \<Rightarrow>
                if str_upper (str_strip line) \<noteq> ''JA'' then (Exit 0, start_run w)
                else (case win_print_pdfs_in_batches sleep_max startfile (found m)
                             (win_batch_size a) (win_delay a) w of
                        Inl (e, s) \<Rightarrow> (Exit 1, s)
                      | Inr s \<Rightarrow> (Exit (if 0 < failed s then 1 else 0), s))))"

section \<open>Observations used in the statements\<close>

text \<open>The state a run ends with, whether it returned or raised.\<close>

definition final :: "'w outcome \<Rightarrow> 'w run" where
  "final r = (case r of Inl (e, s) \<Rightarrow> s | Inr s \<Rightarrow> s)"

text \<open>
  A backend whose world is the number of calls made so far and which fails (with a
  non-zero exit of \<^verbatim>\<open>lp\<close>) exactly at the calls whose 0-based position is in \<open>S\<close>.
\<close>

definition failing_at :: "nat set \<Rightarrow> string \<Rightarrow> nat \<Rightarrow> lp_result \<times> nat" where
  "failing_at S path n = (if n \<in> S then CalledProcessError [] else Completed, Suc n)"

text \<open>
  A backend of the same kind whose calls at the positions in \<open>S\<close> end in an exception that
  \<^verbatim>\<open>print_pdf\<close> does not catch, and one on a machine whose \<^verbatim>\<open>lp\<close> may not be executed, so
  that every call raises \<^verbatim>\<open>PermissionError\<close>.
\<close>

definition raising_at :: "nat set \<Rightarrow> string \<Rightarrow> nat \<Rightarrow> lp_result \<times> nat" where
  "raising_at S path n = (if n \<in> S then OtherError else Completed, Suc n)"

definition lp_not_executable :: "string \<Rightarrow> unit \<Rightarrow> lp_result \<times> unit" where
  "lp_not_executable path w = (OtherError, w)"

text \<open>Backends that accept every file, on a world without state.\<close>

definition lp_accepts :: "string \<Rightarrow> unit \<Rightarrow> lp_result \<times> unit" where
  "lp_accepts path w = (Completed, w)"

definition startfile_accepts :: "string \<Rightarrow> unit \<Rightarrow> string option \<times> unit" where
  "startfile_accepts path w = (None, w)"

text \<open>The tallies agree with the backend calls in the trace.\<close>

definition tallies_match :: "'w run \<Rightarrow> bool" where
  "tallies_match s \<longleftrightarrow>
     successful s = length (filter snd (submitted (trace s))) \<and>
     failed s = length (filter (\<lambda>x. \<not> snd x) (submitted (trace s)))"

text \<open>
  One iteration of the loop of \<^verbatim>\<open>batch_pdf_printer_windows.py\<close> up to and including
  its \<^verbatim>\<open>time.sleep(0.5)\<close>, for a non-zero batch size.
\<close>

definition win_step :: "(string \<Rightarrow> 'w \<Rightarrow> string option \<times> 'w) \<Rightarrow> string \<Rightarrow> 'w run \<Rightarrow> 'w run" where
  "win_step startfile pdf_path s =
     emit (Sleep Half_second)
       (tally pdf_path (fst (print_pdf_file startfile pdf_path (world s)))
          (snd (print_pdf_file startfile pdf_path (world s))) s)"

text \<open>
  In a trace, every call of the backend comes directly after a read of the flag that
  found it set.
\<close>

fun flag_checked :: "event list \<Rightarrow> bool" where
  "flag_checked [] = True"
| "flag_checked (Poll True # Submit p ok # es) = flag_checked es"
| "flag_checked (Submit p ok # es) = False"
| "flag_checked (e # es) = flag_checked es"

text \<open>A flag that is already cleared, and one that stays set, on a world without state.\<close>

definition stopped :: "unit \<Rightarrow> bool \<times> unit" where
  "stopped w = (False, w)"

definition running :: "unit \<Rightarrow> bool \<times> unit" where
  "running w = (True, w)"

definition lp_timeout_accepts :: "string \<Rightarrow> unit \<Rightarrow> lp_result option \<times> unit" where
  "lp_timeout_accepts path w = (Some Completed, w)"

text \<open>
  The trace of \<open>s'\<close> continues the trace of \<open>s\<close>, and in the continuation every call
  of the backend comes directly after a read of the flag that found it set.
\<close>

definition continues :: "'w run \<Rightarrow> 'w run \<Rightarrow> bool" where
  "continues s s' \<longleftrightarrow> (\<exists>ext. trace s' = trace s @ ext \<and> flag_checked ext)"

text \<open>
  In a trace, every call of the backend is directly followed by a sleep of half a second.
\<close>

fun paced :: "event list \<Rightarrow> bool" where
  "paced [] = True"
| "paced (Submit p ok # Sleep Half_second # es) = paced es"
| "paced (Submit p ok # es) = False"
| "paced (e # es) = paced es"

text \<open>
  Where the pauses between batches fall: for each sleep of whole seconds, the number of
  backend calls made before it (counting on from \<open>n\<close>).
\<close>

fun pauses_after :: "nat \<Rightarrow> event list \<Rightarrow> nat list" where
  "pauses_after n [] = []"
| "pauses_after n (Submit p ok # es) = pauses_after (Suc n) es"
| "pauses_after n (Sleep Half_second # es) = pauses_after n es"
| "pauses_after n (Sleep (Seconds k) # es) = n # pauses_after n es"
| "pauses_after n (Poll v # es) = pauses_after n es"

definition pause_positions :: "event list \<Rightarrow> nat list" where
  "pause_positions es = pauses_after 0 es"

text \<open>
  A directory \<^verbatim>\<open>/docs\<close> that holds the one file \<^verbatim>\<open>a.pdf\<close>, and the arguments that print
  it with the default batch size.
\<close>

definition docs_fs :: "string \<Rightarrow> tree option" where
  "docs_fs path = (if path = ''/docs'' then Some (Dir [''a.pdf''] []) else None)"

definition docs_args :: args where
  "docs_args = \<lparr>directory = ''/docs'', batch_size = 10, dry_run = False\<rparr>"

text \<open>The tree of the ordering scenario, listed by the operating system in two orders.\<close>

definition scenario_tree :: tree where
  "scenario_tree = Dir [] [(''A'', Dir [''2.pdf'', ''1.pdf''] []), (''B'', Dir [''1.pdf''] [])]"

definition scenario_tree_reversed :: tree where
  "scenario_tree_reversed = Dir [] [(''B'', Dir [''1.pdf''] []), (''A'', Dir [''2.pdf'', ''1.pdf''] [])]"

text \<open>
  In a trace, every call of the backend that succeeded is directly followed by a sleep.
\<close>

fun sleep_follows_success :: "event list \<Rightarrow> bool" where
  "sleep_follows_success [] = True"
| "sleep_follows_success (Submit p True # Sleep d # es) = sleep_follows_success es"
| "sleep_follows_success (Submit p True # es) = False"
| "sleep_follows_success (e # es) = sleep_follows_success es"

section \<open>Properties of batching\<close>

lemma range_len_pos:
  assumes "0 < b"
  shows "range_len 0 (int n) (int b) = (n + b - 1) div b"
proof (cases n)
  case 0
  with assms show ?thesis by (simp add: range_len_def)
next
  case (Suc m)
  have "(int (Suc m) - 0 - 1) div int b + 1 = int (m div b + 1)"
    by (simp add: zdiv_int)
  then have "range_len 0 (int (Suc m)) (int b) = m div b + 1"
    using assms unfolding range_len_def by (simp del: of_nat_Suc of_nat_add)
  moreover have "(Suc m + b - 1) div b = m div b + 1"
    using assms by simp
  ultimately show ?thesis unfolding Suc by (simp only:)
qed

lemma slice_bound_nat: "slice_bound n (int i) = min n i"
  by (simp add: slice_bound_def)

lemma py_slice_chunk:
  "py_slice xs (int (k * b)) (int (k * b) + int b) = take b (drop (k * b) xs)"
proof -
  have lo: "slice_bound (length xs) (int (k * b)) = min (length xs) (k * b)"
    by (rule slice_bound_nat)
  have "int (k * b) + int b = int (k * b + b)" by simp
  then have hi: "slice_bound (length xs) (int (k * b) + int b) = min (length xs) (k * b + b)"
    by (simp only: slice_bound_nat)
  have "take (min (length xs) (k * b + b) - min (length xs) (k * b)) (drop (min (length xs) (k * b)) xs)
      = take b (drop (k * b) xs)"
  proof (cases "k * b \<le> length xs")
    case True
    then show ?thesis
      by (cases "k * b + b \<le> length xs") (simp_all add: min_def)
  next
    case False
    then show ?thesis by simp
  qed
  then show ?thesis
    unfolding py_slice_def Let_def lo hi .
qed

lemma concat_chunks:
  "concat (map (\<lambda>k. take b (drop (k * b) xs)) [0..<m]) = take (m * b) xs"
proof (induction m)
  case 0
  show ?case by simp
next
  case (Suc m)
  have "take (m * b + b) xs = take (m * b) xs @ take b (drop (m * b) xs)"
    by (rule take_add)
  moreover have "Suc m * b = m * b + b" by simp
  ultimately show ?case using Suc by (simp del: mult_Suc)
qed

lemma batches_pos:
  assumes "0 < b"
  shows "batches xs (int b) =
    Inr (map (\<lambda>k. take b (drop (k * b) xs)) [0..<(length xs + b - 1) div b])"
proof -
  have "map (\<lambda>i. py_slice xs i (i + int b)) (map (\<lambda>k. 0 + int k * int b) [0..<m])
      = map (\<lambda>k. take b (drop (k * b) xs)) [0..<m]" for m
    using py_slice_chunk [of xs _ b] by simp
  then show ?thesis
    using assms by (simp add: batches_def py_range_def range_len_pos del: map_map)
qed

lemma chunk_count_bounds:
  fixes n b :: nat
  assumes "0 < b"
  shows "((n + b - 1) div b) * b \<le> n + b - 1" and "n + b - 1 < ((n + b - 1) div b) * b + b"
proof -
  show "((n + b - 1) div b) * b \<le> n + b - 1" by (rule div_times_less_eq_dividend)
  show "n + b - 1 < ((n + b - 1) div b) * b + b"
    using dividend_less_div_times [OF assms, of "n + b - 1"] by (simp add: add.commute)
qed

lemma ceil_div_nat:
  assumes "0 < b"
  shows "\<lceil>real n / real b\<rceil> = int ((n + b - 1) div b)"
proof -
  define m where "m = (n + b - 1) div b"
  have A: "m * b \<le> n + b - 1" and B: "n + b - 1 < m * b + b"
    unfolding m_def using chunk_count_bounds [OF assms, of n] by simp_all
  from B assms have "n \<le> m * b" by linarith
  then have "real n \<le> real (m * b)" by (simp only: of_nat_le_iff)
  then have up: "real n / real b \<le> real m" using assms by (simp add: field_simps)
  have "m * b < n + b" using A assms by linarith
  then have "real (m * b) < real (n + b)" by (simp only: of_nat_less_iff)
  then have lo: "real m - 1 < real n / real b" using assms by (simp add: field_simps)
  have "\<lceil>real n / real b\<rceil> = int m"
    by (rule ceiling_unique) (use lo up in simp_all)
  then show ?thesis by (simp only: m_def)
qed

lemma full_chunk:
  assumes "0 < b" "Suc k < (length xs + b - 1) div b"
  shows "length (take b (drop (k * b) xs)) = b"
proof -
  define m where "m = (length xs + b - 1) div b"
  have A: "m * b \<le> length xs + b - 1"
    unfolding m_def using chunk_count_bounds(1) [OF assms(1), of "length xs"] .
  from assms(2) have "Suc (Suc k) \<le> m" by (simp add: m_def)
  then have "Suc (Suc k) * b \<le> m * b" by (rule mult_le_mono1)
  with A have "k * b + b + b \<le> length xs + b - 1" by simp
  with assms(1) have "k * b + b \<le> length xs" by linarith
  then show ?thesis by simp
qed

lemma chunks_cover:
  assumes "0 < b"
  shows "concat (map (\<lambda>k. take b (drop (k * b) L)) [0..<(length L + b - 1) div b]) = L"
proof -
  have "length L \<le> ((length L + b - 1) div b) * b"
    using chunk_count_bounds(2) [OF assms, of "length L"] assms by linarith
  then show ?thesis by (simp only: concat_chunks take_all)
qed

text \<open>
  Claim C1. For every list \<open>L\<close> and every batch size \<open>B \<ge> 1\<close>, slicing \<open>L\<close> into
  consecutive chunks of \<open>B\<close> succeeds; the batches concatenated in order are \<open>L\<close>
  itself, every batch but the last has exactly \<open>B\<close> elements, and there are
  \<open>\<lceil>len(L) / B\<rceil>\<close> batches.
\<close>

theorem batches_partition:
  assumes "1 \<le> B"
  shows "\<exists>bs. batches L B = Inr bs \<and> concat bs = L
           \<and> (\<forall>b \<in> set (butlast bs). int (length b) = B)
           \<and> int (length bs) = \<lceil>real (length L) / real_of_int B\<rceil>"
proof -
  define b where "b = nat B"
  from assms have B: "B = int b" and b: "0 < b" by (simp_all add: b_def)
  define m where "m = (length L + b - 1) div b"
  define bs where "bs = map (\<lambda>k. take b (drop (k * b) L)) [0..<m]"
  have 1: "batches L B = Inr bs"
    unfolding B bs_def m_def by (rule batches_pos [OF b])
  have 2: "concat bs = L"
    unfolding bs_def m_def by (rule chunks_cover [OF b])
  have 3: "\<forall>c \<in> set (butlast bs). int (length c) = B"
  proof
    fix c assume "c \<in> set (butlast bs)"
    then obtain i where i: "i < length (butlast bs)" and c: "c = butlast bs ! i"
      by (auto simp: in_set_conv_nth)
    from i have im: "Suc i < m" by (simp add: bs_def)
    then have "c = take b (drop (i * b) L)"
      using c i by (simp add: nth_butlast bs_def)
    then show "int (length c) = B"
      using full_chunk [OF b, of i L] im unfolding B m_def by (simp del: length_take length_drop)
  qed
  have 4: "int (length bs) = \<lceil>real (length L) / real_of_int B\<rceil>"
    unfolding B using ceil_div_nat [OF b, of "length L"] by (simp add: bs_def m_def)
  from 1 2 3 4 show ?thesis by blast
qed

lemma batches_example: "batches [1, 2, 3, 4, 5 :: nat] 2 = Inr [[1, 2], [3, 4], [5]]"
  by code_simp

theorem batches_partition_witness:
  "(1::int) \<le> 2 \<and> (\<exists>bs. batches [1, 2, 3, 4, 5 :: nat] 2 = Inr bs \<and> concat bs = [1, 2, 3, 4, 5]
           \<and> (\<forall>b \<in> set (butlast bs). int (length b) = 2)
           \<and> int (length bs) = \<lceil>real (length [1, 2, 3, 4, 5 :: nat]) / real_of_int 2\<rceil>)"
proof
  show h: "(1::int) \<le> 2" by simp
  show "\<exists>bs. batches [1, 2, 3, 4, 5 :: nat] 2 = Inr bs \<and> concat bs = [1, 2, 3, 4, 5]
           \<and> (\<forall>b \<in> set (butlast bs). int (length b) = 2)
           \<and> int (length bs) = \<lceil>real (length [1, 2, 3, 4, 5 :: nat]) / real_of_int 2\<rceil>"
    by (rule batches_partition [OF h])
qed


section \<open>Tallies and traces\<close>

lemma submitted_append: "submitted (es @ fs) = submitted es @ submitted fs"
  by (induction es rule: submitted.induct) simp_all

lemma sleeps_append: "sleeps (es @ fs) = sleeps es @ sleeps fs"
  by (induction es rule: sleeps.induct) simp_all

lemma tallies_match_sum: "tallies_match s \<Longrightarrow> successful s + failed s = attempted s"
  unfolding tallies_match_def attempted_def
  using sum_length_filter_compl [of snd "submitted (trace s)"] by simp

lemma tallies_match_start: "tallies_match (start_run w)"
  by (simp add: tallies_match_def start_run_def)

lemma tally_simps:
  "submitted (trace (tally p ok w' s)) = submitted (trace s) @ [(p, ok)]"
  "sleeps (trace (tally p ok w' s)) = sleeps (trace s)"
  "world (tally p ok w' s) = w'"
  "successful (tally p ok w' s) = (if ok then successful s + 1 else successful s)"
  "failed (tally p ok w' s) = (if ok then failed s else failed s + 1)"
  by (simp_all add: tally_def submitted_append sleeps_append)

lemma tallies_match_tally: "tallies_match s \<Longrightarrow> tallies_match (tally p ok w' s)"
  by (simp add: tallies_match_def tally_simps)

lemma emit_simps:
  "successful (emit e s) = successful s"
  "failed (emit e s) = failed s"
  "world (emit e s) = world s"
  "trace (emit e s) = trace s @ [e]"
  by (simp_all add: emit_def)

lemma emit_sleep_simps:
  "submitted (trace (emit (Sleep d) s)) = submitted (trace s)"
  "sleeps (trace (emit (Sleep d) s)) = sleeps (trace s) @ [d]"
  "tallies_match (emit (Sleep d) s) = tallies_match s"
  by (simp_all add: emit_def submitted_append sleeps_append tallies_match_def)

lemma final_simps: "final (Inr s) = s" "final (Inl (e, s)) = s"
  by (simp_all add: final_def)

lemma tally_trace: "trace (tally p ok w' s) = trace s @ [Submit p ok]"
  by (simp add: tally_def)

lemma tally_attempted: "attempted (tally p ok w' s) = Suc (attempted s)"
  by (simp add: attempted_def tally_simps)

lemma emit_sleep_attempted: "attempted (emit (Sleep d) s) = attempted s"
  by (simp add: attempted_def emit_sleep_simps)

lemma pauses_after_append:
  "pauses_after n (es @ fs) = pauses_after n es @ pauses_after (n + length (submitted es)) fs"
  by (induction n es rule: pauses_after.induct) simp_all



lemma tally_pauses: "pause_positions (trace (tally p ok w' s)) = pause_positions (trace s)"
  by (simp add: pause_positions_def tally_trace pauses_after_append)

lemma emit_sleep_pauses:
  "pause_positions (trace (emit (Sleep (Seconds n)) s)) = pause_positions (trace s) @ [attempted s]"
  by (simp add: pause_positions_def emit_simps pauses_after_append attempted_def)

lemma inter_file_sleeps_append:
  "inter_file_sleeps (es @ fs) = inter_file_sleeps es + inter_file_sleeps fs"
  by (simp add: inter_file_sleeps_def sleeps_append)

lemma paced_append: "paced es \<Longrightarrow> paced fs \<Longrightarrow> paced (es @ fs)"
  by (induction es rule: paced.induct) simp_all

lemma enumerate_from_Nil: "enumerate_from n [] = []"
  by (simp add: enumerate_from_def)

lemma enumerate_from_Cons: "enumerate_from n (x # xs) = (n, x) # enumerate_from (Suc n) xs"
  by (simp add: enumerate_from_def upt_conv_Cons del: upt_Suc)

subsection \<open>Counting chunks\<close>

lemma below_chunk_count:
  fixes k b n :: nat
  assumes "0 < b"
  shows "k * b < n \<longleftrightarrow> k < (n + b - 1) div b"
proof
  assume "k * b < n"
  then have "k * b + b \<le> n + b - 1" using assms by simp
  then have "(k * b + b) div b \<le> (n + b - 1) div b" by (rule div_le_mono)
  then show "k < (n + b - 1) div b" using assms by simp
next
  assume "k < (n + b - 1) div b"
  then have "Suc k \<le> (n + b - 1) div b" by simp
  then have "Suc k * b \<le> ((n + b - 1) div b) * b" by (rule mult_le_mono1)
  also have "\<dots> \<le> n + b - 1" by (rule div_times_less_eq_dividend)
  finally show "k * b < n" using assms by simp
qed






lemma py_range_pos:
  assumes "0 < b"
  shows "py_range 0 (int n) (int b) = Inr (map (\<lambda>k. int (k * b)) [0..<(n + b - 1) div b])"
  using assms by (simp add: py_range_def range_len_pos)

lemma slices_are_chunks:
  "map (\<lambda>i. py_slice L i (i + int b)) (map (\<lambda>k. int (k * b)) [0..<m])
     = map (\<lambda>k. take b (drop (k * b) L)) [0..<m]"
  using py_slice_chunk [of L _ b] by simp

lemma concat_slices:
  assumes "0 < b"
  shows "concat (map (\<lambda>i. py_slice L i (i + int b)) (map (\<lambda>k. int (k * b)) [0..<(length L + b - 1) div b])) = L"
  unfolding slices_are_chunks by (rule chunks_cover [OF assms])

section \<open>Runs of \<^verbatim>\<open>batch_pdf_printer.py\<close>\<close>

subsection \<open>One file and one batch\<close>

lemma print_one_eq:
  "print_one lp p s =
     (if fst (lp p (world s)) = OtherError
      then Inl (OtherError_raised, s\<lparr>trace := trace s @ [Submit p False], world := snd (lp p (world s))\<rparr>)
      else Inr (tally p (fst (lp p (world s)) = Completed) (snd (lp p (world s))) s))"
  by (simp add: print_one_def print_pdf_def split: prod.splits lp_result.splits)

lemma print_batch_Inr:
  "print_batch lp b s = Inr s' \<Longrightarrow>
     map fst (submitted (trace s')) = map fst (submitted (trace s)) @ b \<and>
     sleeps (trace s') = sleeps (trace s) \<and>
     pause_positions (trace s') = pause_positions (trace s) \<and>
     attempted s' = attempted s + length b \<and>
     (tallies_match s \<longrightarrow> tallies_match s')"
proof (induction b arbitrary: s)
  case Nil
  then show ?case by simp
next
  case (Cons p b)
  let ?t = "tally p (fst (lp p (world s)) = Completed) (snd (lp p (world s))) s"
  from Cons.prems have r: "print_batch lp b ?t = Inr s'"
    by (simp add: print_one_eq split: if_splits)
  from Cons.IH [OF r] show ?case
    by (simp add: tally_simps tally_pauses tally_attempted tallies_match_tally)
qed

lemma print_batch_Inl:
  "print_batch lp b s = Inl (e, s') \<Longrightarrow> tallies_match s \<Longrightarrow>
     e = OtherError_raised \<and> successful s' + failed s' + 1 = attempted s'"
proof (induction b arbitrary: s)
  case Nil
  then show ?case by simp
next
  case (Cons p b)
  show ?case
  proof (cases "fst (lp p (world s)) = OtherError")
    case True
    with Cons.prems(1) have e: "e = OtherError_raised"
      and s': "s' = s\<lparr>trace := trace s @ [Submit p False], world := snd (lp p (world s))\<rparr>"
      by (simp_all add: print_one_eq)
    have "attempted s' = attempted s + 1"
      unfolding s' by (simp add: attempted_def submitted_append)
    moreover have "successful s' = successful s" "failed s' = failed s"
      unfolding s' by simp_all
    ultimately show ?thesis using tallies_match_sum [OF Cons.prems(2)] e by simp
  next
    case False
    let ?t = "tally p (fst (lp p (world s)) = Completed) (snd (lp p (world s))) s"
    from False Cons.prems(1) have r: "print_batch lp b ?t = Inl (e, s')"
      by (simp add: print_one_eq)
    from Cons.IH [OF r tallies_match_tally [OF Cons.prems(2)]] show ?thesis .
  qed
qed

lemma print_batch_final_sleeps:
  "sleeps (trace (final (print_batch lp b s))) = sleeps (trace s)"
proof (induction b arbitrary: s)
  case Nil
  show ?case by (simp add: final_simps)
next
  case (Cons p b)
  show ?case
  proof (cases "fst (lp p (world s)) = OtherError")
    case True
    then show ?thesis by (simp add: print_one_eq final_simps sleeps_append)
  next
    case False
    let ?t = "tally p (fst (lp p (world s)) = Completed) (snd (lp p (world s))) s"
    from False have "print_batch lp (p # b) s = print_batch lp b ?t"
      by (simp add: print_one_eq)
    with Cons [of ?t] show ?thesis by (simp add: tally_simps)
  qed
qed

lemma print_batch_returns:
  assumes "\<And>p w. fst (lp p w) \<noteq> OtherError"
  shows "\<exists>s'. print_batch lp b s = Inr s'"
  by (induction b arbitrary: s) (simp_all add: print_one_eq assms)

subsection \<open>The loop over the batches\<close>

lemma batch_pause_simps:
  "submitted (trace (batch_pause L B i s)) = submitted (trace s)"
  "tallies_match (batch_pause L B i s) = tallies_match s"
  "sleeps (trace (batch_pause L B i s)) =
     sleeps (trace s) @ (if i + B < int (length L) then [Seconds 2] else [])"
  by (simp_all add: batch_pause_def emit_sleep_simps)

lemma batch_loop_Inr:
  "batch_loop lp L B idx s = Inr s' \<Longrightarrow>
     map fst (submitted (trace s'))
       = map fst (submitted (trace s)) @ concat (map (\<lambda>i. py_slice L i (i + B)) idx) \<and>
     (tallies_match s \<longrightarrow> tallies_match s')"
proof (induction idx arbitrary: s)
  case Nil
  then show ?case by simp
next
  case (Cons i idx)
  from Cons.prems obtain s1 where 1: "print_batch lp (py_slice L i (i + B)) s = Inr s1"
    and 2: "batch_loop lp L B idx (batch_pause L B i s1) = Inr s'"
    by (auto split: sum.splits)
  from print_batch_Inr [OF 1] Cons.IH [OF 2] show ?case
    by (simp add: batch_pause_simps)
qed

lemma batch_loop_Inl:
  "batch_loop lp L B idx s = Inl (e, s') \<Longrightarrow> tallies_match s \<Longrightarrow>
     e = OtherError_raised \<and> successful s' + failed s' + 1 = attempted s'"
proof (induction idx arbitrary: s)
  case Nil
  then show ?case by simp
next
  case (Cons i idx)
  show ?case
  proof (cases "print_batch lp (py_slice L i (i + B)) s")
    case (Inl a)
    with Cons.prems(1) have "print_batch lp (py_slice L i (i + B)) s = Inl (e, s')" by simp
    from print_batch_Inl [OF this Cons.prems(2)] show ?thesis .
  next
    case (Inr s1)
    with Cons.prems(1) have 2: "batch_loop lp L B idx (batch_pause L B i s1) = Inl (e, s')" by simp
    from print_batch_Inr [OF Inr] Cons.prems(2) have "tallies_match (batch_pause L B i s1)"
      by (simp add: batch_pause_simps)
    from Cons.IH [OF 2 this] show ?thesis .
  qed
qed

lemma batch_loop_final_sleeps:
  "set (sleeps (trace (final (batch_loop lp L B idx s)))) \<subseteq> set (sleeps (trace s)) \<union> {Seconds 2}"
proof (induction idx arbitrary: s)
  case Nil
  show ?case by (auto simp: final_simps)
next
  case (Cons i idx)
  show ?case
  proof (cases "print_batch lp (py_slice L i (i + B)) s")
    case (Inl a)
    then have f: "final (batch_loop lp L B (i # idx) s) = final (print_batch lp (py_slice L i (i + B)) s)"
      by (simp add: final_def)
    show ?thesis unfolding f print_batch_final_sleeps by auto
  next
    case (Inr s1)
    have "sleeps (trace s1) = sleeps (trace s)"
      using print_batch_final_sleeps [of lp "py_slice L i (i + B)" s] Inr by (simp add: final_simps)
    then have sub: "set (sleeps (trace (batch_pause L B i s1))) \<subseteq> set (sleeps (trace s)) \<union> {Seconds 2}"
      by (auto simp: batch_pause_simps)
    have f: "final (batch_loop lp L B (i # idx) s) = final (batch_loop lp L B idx (batch_pause L B i s1))"
      using Inr by simp
    show ?thesis unfolding f using Cons [of "batch_pause L B i s1"] sub by auto
  qed
qed

lemma batch_loop_returns:
  assumes "\<And>p w. fst (lp p w) \<noteq> OtherError"
  shows "\<exists>s'. batch_loop lp L B idx s = Inr s'"
proof (induction idx arbitrary: s)
  case Nil
  show ?case by simp
next
  case (Cons i idx)
  from print_batch_returns [where lp = lp and b = "py_slice L i (i + B)" and s = s, OF assms]
  obtain s1 where "print_batch lp (py_slice L i (i + B)) s = Inr s1" by blast
  with Cons [of "batch_pause L B i s1"] show ?case by simp
qed

text \<open>
  Where a returned run paused: after every full batch that is not the last one.
\<close>

lemma batch_loop_shape:
  assumes b: "0 < b" and m: "m = (length L + b - 1) div b"
  shows "j \<le> m \<Longrightarrow> attempted s = j * b \<Longrightarrow>
    batch_loop lp L (int b) (map (\<lambda>k. int (k * b)) [j..<m]) s = Inr s' \<Longrightarrow>
    pause_positions (trace s') = pause_positions (trace s) @ map (\<lambda>k. k * b) [Suc j..<m]"
proof (induction "m - j" arbitrary: j s)
  case 0
  then have e: "[j..<m] = []" "[Suc j..<m] = []" by simp_all
  from "0.prems"(3) show ?case unfolding e by simp
next
  case (Suc d)
  then have jm: "j < m" by simp
  let ?chunk = "py_slice L (int (j * b)) (int (j * b) + int b)"
  have items: "map (\<lambda>k. int (k * b)) [j..<m] = int (j * b) # map (\<lambda>k. int (k * b)) [Suc j..<m]"
    using jm by (simp add: upt_conv_Cons)
  from Suc.prems(3) obtain s1 where s1: "print_batch lp ?chunk s = Inr s1"
    and rest: "batch_loop lp L (int b) (map (\<lambda>k. int (k * b)) [Suc j..<m])
                 (batch_pause L (int b) (int (j * b)) s1) = Inr s'"
    unfolding items by (auto split: sum.splits)
  note pb = print_batch_Inr [OF s1]
  have "int (j * b) + int b = int (Suc j * b)" by simp
  then have c: "int (j * b) + int b < int (length L) \<longleftrightarrow> Suc j * b < length L"
    by (simp only: of_nat_less_iff)
  have t: "Suc j * b < length L \<longleftrightarrow> Suc j < m"
    unfolding m by (rule below_chunk_count [OF b])
  show ?case
  proof (cases "Suc j < m")
    case True
    have "length ?chunk = b"
      unfolding py_slice_chunk using full_chunk [OF b, of j L] True unfolding m .
    with pb Suc.prems(2) have a1: "attempted s1 = Suc j * b" by simp
    let ?s2 = "emit (Sleep (Seconds 2)) s1"
    have pause: "batch_pause L (int b) (int (j * b)) s1 = ?s2"
      unfolding batch_pause_def c t using True by simp
    have a2: "attempted ?s2 = Suc j * b" using a1 by (simp add: emit_sleep_attempted)
    have p2: "pause_positions (trace ?s2) = pause_positions (trace s) @ [Suc j * b]"
      using a1 pb by (simp add: emit_sleep_pauses)
    have d: "d = m - Suc j" using Suc.hyps(2) by simp
    have le: "Suc j \<le> m" using True by simp
    from Suc.hyps(1) [OF d le a2 rest [unfolded pause]]
    have "pause_positions (trace s') = pause_positions (trace ?s2) @ map (\<lambda>k. k * b) [Suc (Suc j)..<m]" .
    moreover have "[Suc j..<m] = Suc j # [Suc (Suc j)..<m]" using True by (simp add: upt_conv_Cons)
    ultimately show ?thesis unfolding p2 by simp
  next
    case False
    with jm have e: "[Suc j..<m] = []" by simp
    have "batch_pause L (int b) (int (j * b)) s1 = s1"
      unfolding batch_pause_def c t using False by simp
    with rest have "s' = s1" unfolding e by simp
    with pb show ?thesis unfolding e by simp
  qed
qed

lemma print_pdfs_in_batches_Inr:
  assumes "1 \<le> B" "print_pdfs_in_batches lp L B w = Inr s"
  shows "pause_positions (trace s) = map (\<lambda>k. k * nat B) [1..<(length L + nat B - 1) div nat B]"
    and "map fst (submitted (trace s)) = L"
    and "tallies_match s"
proof -
  define b where "b = nat B"
  from assms(1) have B: "B = int b" and b: "0 < b" by (simp_all add: b_def)
  define m where "m = (length L + b - 1) div b"
  have r: "batch_loop lp L (int b) (map (\<lambda>k. int (k * b)) [0..<m]) (start_run w) = Inr s"
    using assms(2) unfolding print_pdfs_in_batches_def B py_range_pos [OF b] m_def by simp
  have a: "attempted (start_run w) = 0 * b" by (simp add: attempted_def start_run_def)
  from batch_loop_shape [OF b m_def _ a r]
  have "pause_positions (trace s) = pause_positions (trace (start_run w)) @ map (\<lambda>k. k * b) [Suc 0..<m]"
    by simp
  then show "pause_positions (trace s) = map (\<lambda>k. k * nat B) [1..<(length L + nat B - 1) div nat B]"
    unfolding b_def [symmetric] m_def [symmetric] by (simp add: start_run_def pause_positions_def)
  from batch_loop_Inr [OF r] tallies_match_start [of w]
  have p: "map fst (submitted (trace s)) = concat (map (\<lambda>i. py_slice L i (i + int b)) (map (\<lambda>k. int (k * b)) [0..<m]))"
    and t: "tallies_match s"
    by (simp_all add: start_run_def)
  from p show "map fst (submitted (trace s)) = L"
    unfolding m_def concat_slices [OF b] .
  from t show "tallies_match s" .
qed

lemma print_pdfs_in_batches_returns:
  assumes "B \<noteq> 0" "\<And>p w. fst (lp p w) \<noteq> OtherError"
  shows "\<exists>s. print_pdfs_in_batches lp L B w = Inr s"
proof -
  from assms(1) obtain idx where "py_range 0 (int (length L)) B = Inr idx"
    by (simp add: py_range_def)
  with batch_loop_returns [where lp = lp and L = L and B = B and idx = idx and s = "start_run w", OF assms(2)]
  show ?thesis by (simp add: print_pdfs_in_batches_def)
qed

lemma print_pdfs_in_batches_no_inter_file_sleep:
  "inter_file_sleeps (trace (final (print_pdfs_in_batches lp L B w))) = 0"
proof (cases "py_range 0 (int (length L)) B")
  case (Inl e)
  then show ?thesis
    by (simp add: print_pdfs_in_batches_def final_simps start_run_def inter_file_sleeps_def)
next
  case (Inr idx)
  then have "print_pdfs_in_batches lp L B w = batch_loop lp L B idx (start_run w)"
    by (simp add: print_pdfs_in_batches_def)
  with batch_loop_final_sleeps [of lp L B idx "start_run w"]
  have "set (sleeps (trace (final (print_pdfs_in_batches lp L B w)))) \<subseteq> {Seconds 2}"
    by (simp add: start_run_def)
  then have "filter (\<lambda>d. d = Half_second) (sleeps (trace (final (print_pdfs_in_batches lp L B w)))) = []"
    by (auto simp: filter_empty_conv)
  then show ?thesis by (simp add: inter_file_sleeps_def)
qed

subsection \<open>What the tallies count\<close>

text \<open>
  A run that returns has counted every file once, in one of the two tallies. A run that an
  exception ended has made one backend call more than the tallies hold.
\<close>

lemma returned_run_counts_every_file:
  assumes "1 \<le> B" "print_pdfs_in_batches lp L B w = Inr s"
  shows "map fst (submitted (trace s)) = L"
    and "successful s = length (filter snd (submitted (trace s)))"
    and "failed s = length (filter (\<lambda>x. \<not> snd x) (submitted (trace s)))"
    and "successful s + failed s = length L"
proof -
  note r = print_pdfs_in_batches_Inr [OF assms]
  show "map fst (submitted (trace s)) = L" by (rule r(2))
  from r(3) show "successful s = length (filter snd (submitted (trace s)))"
    and "failed s = length (filter (\<lambda>x. \<not> snd x) (submitted (trace s)))"
    by (simp_all add: tallies_match_def)
  have "attempted s = length L"
    unfolding attempted_def using arg_cong [OF r(2), of length] by simp
  with tallies_match_sum [OF r(3)] show "successful s + failed s = length L" by simp
qed

lemma raised_run_misses_one_file:
  assumes "B \<noteq> 0" "print_pdfs_in_batches lp L B w = Inl (e, s)"
  shows "e = OtherError_raised" and "successful s + failed s + 1 = attempted s"
proof -
  from assms(1) obtain idx where i: "py_range 0 (int (length L)) B = Inr idx"
    by (simp add: py_range_def)
  with assms(2) have "batch_loop lp L B idx (start_run w) = Inl (e, s)"
    by (simp add: print_pdfs_in_batches_def)
  from batch_loop_Inl [OF this tallies_match_start]
  show "e = OtherError_raised" and "successful s + failed s + 1 = attempted s" by simp_all
qed

text \<open>
  As long as every exception of the backend is one that \<^verbatim>\<open>print_pdf\<close> catches, a failing
  file does not end the run: it returns, having called the backend on every file in order.
\<close>

lemma caught_failures_do_not_abort:
  assumes "1 \<le> B" "\<And>p w. fst (lp p w) \<noteq> OtherError"
  shows "\<exists>s. print_pdfs_in_batches lp L B w = Inr s
            \<and> map fst (submitted (trace s)) = L
            \<and> attempted s = length L
            \<and> successful s + failed s = length L"
proof -
  from assms(1) have "B \<noteq> 0" by simp
  from print_pdfs_in_batches_returns [where lp = lp and L = L and w = w, OF this assms(2)]
  obtain s where s: "print_pdfs_in_batches lp L B w = Inr s" by blast
  note r = returned_run_counts_every_file [OF assms(1) s]
  have "attempted s = length L"
    unfolding attempted_def using arg_cong [OF r(1), of length] by simp
  with s r(1) r(4) show ?thesis by blast
qed

lemma upt_0_1: "[0..<Suc 0] = [0]"
  by simp

lemma five_files_two_caught_failures:
  "print_pdfs_in_batches (failing_at {1, 3}) [''1.pdf'', ''2.pdf'', ''3.pdf'', ''4.pdf'', ''5.pdf''] 10 0
     = Inr \<lparr>successful = 3, failed = 2,
            trace = [Submit ''1.pdf'' True, Submit ''2.pdf'' False, Submit ''3.pdf'' True,
                     Submit ''4.pdf'' False, Submit ''5.pdf'' True],
            world = 5\<rparr>"
  by (simp add: print_pdfs_in_batches_def py_range_def range_len_def py_slice_def slice_bound_def
      batch_pause_def print_one_def print_pdf_def failing_at_def tally_def start_run_def)

subsection \<open>The entry point\<close>

lemma main_after_run:
  assumes "fs (directory a) = Some t" "find_pdf_files (directory a) t \<noteq> []" "\<not> dry_run a"
    "lower r \<in> set [''y'', ''yes'']"
  shows "main lp fs (Typed r) a w =
     (case print_pdfs_in_batches lp
             (fst (sort_pdf_files 0 (\<lambda>r. find_pdf_files (directory a) t))) (batch_size a) w of
        Inl (e, s) \<Rightarrow> (Uncaught e, s)
      | Inr s \<Rightarrow> (Exit 0, s))"
  using assms by (simp add: main_def Let_def)

lemma docs_found: "find_pdf_files ''/docs'' (Dir [''a.pdf''] []) = [(''/docs'', ''a.pdf'')]"
  by code_simp

lemma docs_sorted:
  "fst (sort_pdf_files 0 (\<lambda>r. [(''/docs'', ''a.pdf'')])) = [''/docs/a.pdf'']"
  by (simp add: sort_pdf_files_def list_sort_def os_path_join_def)

lemma main_docs:
  "main lp docs_fs (Typed ''y'') docs_args w =
     (case print_pdfs_in_batches lp [''/docs/a.pdf''] 10 w of
        Inl (e, s) \<Rightarrow> (Uncaught e, s)
      | Inr s \<Rightarrow> (Exit 0, s))"
proof -
  have d: "directory docs_args = ''/docs''" "batch_size docs_args = 10" "\<not> dry_run docs_args"
    by (simp_all add: docs_args_def)
  have fs: "docs_fs (directory docs_args) = Some (Dir [''a.pdf''] [])"
    by (simp add: docs_fs_def d)
  have ne: "find_pdf_files (directory docs_args) (Dir [''a.pdf''] []) \<noteq> []"
    unfolding d docs_found by simp
  have l: "lower ''y'' \<in> set [''y'', ''yes'']" by code_simp
  show ?thesis
    unfolding main_after_run [where fs = docs_fs and a = docs_args, OF fs ne d(3) l]
      d docs_found docs_sorted ..
qed

lemma docs_run_not_executable:
  "print_pdfs_in_batches lp_not_executable [''/docs/a.pdf''] 10 ()
     = Inl (OtherError_raised,
            \<lparr>successful = 0, failed = 0, trace = [Submit ''/docs/a.pdf'' False], world = ()\<rparr>)"
  by (simp add: print_pdfs_in_batches_def py_range_def range_len_def py_slice_def slice_bound_def
      print_one_def print_pdf_def lp_not_executable_def start_run_def)

text \<open>
  Claim C2 at the failing input. \<^verbatim>\<open>batch_pdf_printer.py\<close> is run on a directory with one
  PDF on a machine whose \<^verbatim>\<open>lp\<close> may not be executed, and the user confirms.
  \<^verbatim>\<open>subprocess.run\<close> raises \<^verbatim>\<open>PermissionError\<close>, which \<^verbatim>\<open>print_pdf\<close> does not catch: the
  process ends with the uncaught exception, the backend has been called on one file, and
  that file is in neither tally.
\<close>

theorem attempted_file_in_neither_tally:
  "main lp_not_executable docs_fs (Typed ''y'') docs_args ()
     = (Uncaught OtherError_raised,
        \<lparr>successful = 0, failed = 0, trace = [Submit ''/docs/a.pdf'' False], world = ()\<rparr>)
   \<and> attempted (snd (main lp_not_executable docs_fs (Typed ''y'') docs_args ())) = 1
   \<and> successful (snd (main lp_not_executable docs_fs (Typed ''y'') docs_args ()))
       + failed (snd (main lp_not_executable docs_fs (Typed ''y'') docs_args ())) = 0"
proof -
  have "main lp_not_executable docs_fs (Typed ''y'') docs_args ()
     = (Uncaught OtherError_raised,
        \<lparr>successful = 0, failed = 0, trace = [Submit ''/docs/a.pdf'' False], world = ()\<rparr>)"
    unfolding main_docs docs_run_not_executable by simp
  then show ?thesis by (simp add: attempted_def)
qed

text \<open>
  Claim C3 at the failing input. Five files are printed, and the backend fails at the
  calls 1 and 3 (counted from 0) with an exception that \<^verbatim>\<open>print_pdf\<close> does not catch. The
  first failure ends the run: the first file was printed, the second was handed to \<^verbatim>\<open>lp\<close>,
  and the third, fourth and fifth are never attempted.
\<close>

theorem uncaught_failure_aborts_run:
  "print_pdfs_in_batches (raising_at {1, 3}) [''1.pdf'', ''2.pdf'', ''3.pdf'', ''4.pdf'', ''5.pdf''] 10 0
     = Inl (OtherError_raised,
            \<lparr>successful = 1, failed = 0,
             trace = [Submit ''1.pdf'' True, Submit ''2.pdf'' False], world = 2\<rparr>)
   \<and> map fst (submitted (trace (final
        (print_pdfs_in_batches (raising_at {1, 3})
           [''1.pdf'', ''2.pdf'', ''3.pdf'', ''4.pdf'', ''5.pdf''] 10 0))))
       = [''1.pdf'', ''2.pdf'']"
proof -
  have "print_pdfs_in_batches (raising_at {1, 3}) [''1.pdf'', ''2.pdf'', ''3.pdf'', ''4.pdf'', ''5.pdf''] 10 0
     = Inl (OtherError_raised,
            \<lparr>successful = 1, failed = 0,
             trace = [Submit ''1.pdf'' True, Submit ''2.pdf'' False], world = 2\<rparr>)"
    by (simp add: print_pdfs_in_batches_def py_range_def range_len_def py_slice_def slice_bound_def
        print_one_def print_pdf_def raising_at_def tally_def start_run_def)
  then show ?thesis by (simp add: final_simps)
qed

section \<open>Cancellation in the graphical front ends\<close>

lemma read_flag_simps:
  "fst (read_flag poll s) = fst (poll (world s))"
  "trace (snd (read_flag poll s)) = trace s @ [Poll (fst (poll (world s)))]"
  "successful (snd (read_flag poll s)) = successful s"
  "failed (snd (read_flag poll s)) = failed s"
  "world (snd (read_flag poll s)) = snd (poll (world s))"
  by (simp_all add: read_flag_def split: prod.splits)

lemma flag_checked_Sleep: "flag_checked (Sleep d # fs) = flag_checked fs"
  by simp

lemma flag_checked_Poll: "flag_checked fs \<Longrightarrow> flag_checked (Poll v # fs)"
proof (cases fs)
  case Nil
  then show ?thesis by (cases v) simp_all
next
  case (Cons f gs)
  assume c: "flag_checked fs"
  show ?thesis
  proof (cases f)
    case (Submit p ok)
    with c Cons show ?thesis by simp
  next
    case (Sleep d)
    with c Cons show ?thesis by (cases v) simp_all
  next
    case (Poll u)
    with c Cons show ?thesis by (cases v) simp_all
  qed
qed

lemma flag_checked_append:
  "flag_checked es \<Longrightarrow> flag_checked fs \<Longrightarrow> flag_checked (es @ fs)"
proof (induction es rule: flag_checked.induct)
  case 1
  then show ?case by simp
next
  case (2 p ok es)
  then show ?case by simp
next
  case (3 p ok es)
  then show ?case by simp
qed (simp_all add: flag_checked_Poll)

lemma continues_refl: "continues s s"
  by (simp add: continues_def)

lemma continues_trans: "continues s t \<Longrightarrow> continues t u \<Longrightarrow> continues s u"
  unfolding continues_def using flag_checked_append by fastforce

lemma continues_read_flag: "continues s (snd (read_flag poll s))"
  unfolding continues_def read_flag_simps by (simp add: flag_checked_Poll)

lemma continues_sleep: "continues s (emit (Sleep d) s)"
  by (simp add: continues_def emit_simps)

lemma continues_submit:
  assumes "read_flag poll s = (True, s1)" "trace t = trace s1 @ [Submit p ok]"
  shows "continues s t"
proof -
  have "trace s1 = trace s @ [Poll True]"
    using read_flag_simps(1,2) [of poll s] assms(1) by simp
  with assms(2) have "trace t = trace s @ [Poll True, Submit p ok]" by simp
  moreover have "flag_checked [Poll True, Submit p ok]" by simp
  ultimately show ?thesis unfolding continues_def by blast
qed

lemma gui_batch_continues: "continues s (final (gui_batch poll lp b s))"
proof (induction b arbitrary: s)
  case Nil
  show ?case by (simp add: final_def continues_refl)
next
  case (Cons p b)
  obtain v s1 where r: "read_flag poll s = (v, s1)" by (cases "read_flag poll s")
  have c1: "continues s s1" using continues_read_flag [of s poll] r by simp
  show ?case
  proof (cases v)
    case False
    then show ?thesis using r c1 by (simp add: final_def)
  next
    case True
    show ?thesis
    proof (cases "p = []")
      case empty: True
      then have "final (gui_batch poll lp (p # b) s) = s1"
        using r \<open>v\<close> by (simp add: final_def)
      with c1 show ?thesis by simp
    next
      case path: False
      obtain res w' where l: "lp p (world s1) = (res, w')" by (cases "lp p (world s1)")
      show ?thesis
      proof (cases "res = Some FileNotFoundError \<or> res = Some OtherError")
        case raised: True
        have "final (gui_batch poll lp (p # b) s) = s1\<lparr>trace := trace s1 @ [Submit p False], world := w'\<rparr>"
          using r l raised path \<open>v\<close> by (auto simp: final_def)
        moreover have "continues s (s1\<lparr>trace := trace s1 @ [Submit p False], world := w'\<rparr>)"
          using r True by (intro continues_submit [of poll s s1 _ p False]) simp_all
        ultimately show ?thesis by simp
      next
        case False
        then obtain ok where g: "gui_batch poll lp (p # b) s = gui_batch poll lp b (tally p ok w' s1)"
          using r l path \<open>v\<close> by (cases res; cases "the res") auto
        have "continues s (tally p ok w' s1)"
          using r True by (intro continues_submit [of poll s s1 _ p ok]) (simp_all add: tally_trace)
        from continues_trans [OF this Cons.IH] g show ?thesis by simp
      qed
    qed
  qed
qed

lemma gui_loop_continues: "continues s (final (gui_loop poll lp n bs s))"
proof (induction bs arbitrary: s)
  case Nil
  show ?case by (simp add: final_def continues_refl)
next
  case (Cons x bs)
  obtain bn b where x: "x = (bn, b)" by (cases x)
  obtain v s1 where r: "read_flag poll s = (v, s1)" by (cases "read_flag poll s")
  have c1: "continues s s1" using continues_read_flag [of s poll] r by simp
  show ?case
  proof (cases v)
    case False
    then show ?thesis using r c1 x by (simp add: final_def)
  next
    case True
    have cb: "continues s1 (final (gui_batch poll lp b s1))" by (rule gui_batch_continues)
    show ?thesis
    proof (cases "gui_batch poll lp b s1")
      case (Inl a)
      then have "final (gui_loop poll lp n (x # bs) s) = final (gui_batch poll lp b s1)"
        using r True x by (simp add: final_def)
      with continues_trans [OF c1 cb] show ?thesis by simp
    next
      case (Inr s2)
      with cb have c2: "continues s s2" using continues_trans [OF c1] by (simp add: final_def)
      show ?thesis
      proof (cases "bn < n")
        case False
        then have "gui_loop poll lp n (x # bs) s = gui_loop poll lp n bs s2"
          using r True x Inr by simp
        with continues_trans [OF c2 Cons.IH] show ?thesis by simp
      next
        case lt: True
        obtain u s3 where r2: "read_flag poll s2 = (u, s3)" by (cases "read_flag poll s2")
        have c3: "continues s s3"
          using continues_trans [OF c2 continues_read_flag [of s2 poll]] r2 by simp
        show ?thesis
        proof (cases u)
          case True
          then have "gui_loop poll lp n (x # bs) s = gui_loop poll lp n bs (emit (Sleep (Seconds 3)) s3)"
            using r \<open>v\<close> x Inr lt r2 by simp
          with continues_trans [OF continues_trans [OF c3 continues_sleep] Cons.IH]
          show ?thesis by simp
        next
          case False
          then have "gui_loop poll lp n (x # bs) s = gui_loop poll lp n bs s3"
            using r \<open>v\<close> x Inr lt r2 by simp
          with continues_trans [OF c3 Cons.IH] show ?thesis by simp
        qed
      qed
    qed
  qed
qed

lemma worker_loop_continues: "continues s (worker_loop poll sf n B items s)"
proof (induction items arbitrary: s)
  case Nil
  show ?case by (simp add: continues_refl)
next
  case (Cons x items)
  obtain i p where x: "x = (i, p)" by (cases x)
  obtain v s1 where r: "read_flag poll s = (v, s1)" by (cases "read_flag poll s")
  have c1: "continues s s1" using continues_read_flag [of s poll] r by simp
  show ?case
  proof (cases v)
    case False
    then show ?thesis using r c1 x by simp
  next
    case True
    obtain res w' where l: "sf p (world s1) = (res, w')" by (cases "sf p (world s1)")
    show ?thesis
    proof (cases res)
      case (Some msg)
      let ?t = "s1\<lparr>trace := trace s1 @ [Submit p False], world := w'\<rparr>"
      have "worker_loop poll sf n B (x # items) s = worker_loop poll sf n B items ?t"
        using r True x l Some by simp
      moreover have "continues s ?t"
        using r True by (intro continues_submit [of poll s s1 _ p False]) simp_all
      ultimately show ?thesis using continues_trans [OF _ Cons.IH] by simp
    next
      case None
      let ?t = "s1\<lparr>successful := successful s1 + 1, trace := trace s1 @ [Submit p True], world := w'\<rparr>"
      have ct: "continues s ?t"
        using r True by (intro continues_submit [of poll s s1 _ p True]) simp_all
      have "worker_loop poll sf n B (x # items) s = worker_loop poll sf n B items ?t
          \<or> worker_loop poll sf n B (x # items) s = worker_loop poll sf n B items (emit (Sleep (Seconds 3)) ?t)
          \<or> worker_loop poll sf n B (x # items) s = worker_loop poll sf n B items (emit (Sleep Half_second) ?t)"
        using r True x l None by (simp add: Let_def)
      then show ?thesis
        using continues_trans [OF ct Cons.IH]
          continues_trans [OF continues_trans [OF ct continues_sleep] Cons.IH]
        by auto
    qed
  qed
qed


lemma batches_nonzero:
  assumes "B \<noteq> 0"
  shows "\<exists>bs. batches L B = Inr bs \<and> (bs = [] \<longleftrightarrow> L = [] \<or> B < 0)"
proof -
  have "range_len 0 (int (length L)) B = 0 \<longleftrightarrow> L = [] \<or> B < 0"
  proof (cases "0 < B")
    case True
    then have "0 \<le> (int (length L) - 1) div B" if "L \<noteq> []"
      using that by (simp add: pos_imp_zdiv_nonneg_iff Suc_leI)
    then show ?thesis using True by (auto simp: range_len_def)
  next
    case False
    with assms show ?thesis by (simp add: range_len_def)
  qed
  then show ?thesis using assms by (simp add: batches_def py_range_def)
qed

lemma gui_loop_stopped:
  assumes "fst (poll (world s)) = False" "bs \<noteq> []"
  shows "gui_loop poll lp n bs s = Inr (snd (read_flag poll s))"
proof -
  from assms(2) obtain bn b rest where bs: "bs = (bn, b) # rest" by (cases bs) auto
  obtain v s1 where r: "read_flag poll s = (v, s1)" by (cases "read_flag poll s")
  with assms(1) read_flag_simps(1) [of poll s] have "\<not> v" by simp
  then show ?thesis unfolding bs using r by simp
qed

lemma worker_loop_stopped:
  assumes "fst (poll (world s)) = False" "items \<noteq> []"
  shows "worker_loop poll sf n B items s = snd (read_flag poll s)"
proof -
  from assms(2) obtain i p rest where items: "items = (i, p) # rest" by (cases items) auto
  obtain v s1 where r: "read_flag poll s = (v, s1)" by (cases "read_flag poll s")
  with assms(1) read_flag_simps(1) [of poll s] have "\<not> v" by simp
  then show ?thesis unfolding items using r by simp
qed

lemma print_thread_stopped:
  assumes "fst (poll w) = False" "B \<noteq> 0"
  shows "\<exists>s. print_thread poll lp found_pdfs (Some B) w = Inr s
           \<and> successful s = 0 \<and> failed s = 0
           \<and> trace s = (if found_pdfs = [] \<or> B < 0 then [] else [Poll False])"
proof -
  from batches_nonzero [OF assms(2), of found_pdfs] obtain bs where
    bs: "batches found_pdfs B = Inr bs" "bs = [] \<longleftrightarrow> found_pdfs = [] \<or> B < 0" by blast
  show ?thesis
  proof (cases "bs = []")
    case True
    with bs show ?thesis
      by (simp add: print_thread_def enumerate_from_Nil start_run_def)
  next
    case False
    then have ne: "enumerate_from 1 bs \<noteq> []" by (cases bs) (simp_all add: enumerate_from_Cons)
    have w: "fst (poll (world (start_run w))) = False" using assms(1) by (simp add: start_run_def)
    let ?s = "snd (read_flag poll (start_run w))"
    have "print_thread poll lp found_pdfs (Some B) w = Inr ?s"
      unfolding print_thread_def
      using bs(1) gui_loop_stopped [where poll = poll and s = "start_run w", OF w ne] by simp
    moreover have "successful ?s = 0" "failed ?s = 0" "trace ?s = [Poll False]"
      using assms(1) by (simp_all add: read_flag_simps start_run_def)
    ultimately show ?thesis using False bs(2) by simp
  qed
qed

lemma print_worker_stopped:
  assumes "fst (poll w) = False"
  shows "successful (snd (print_worker poll sf found_pdfs B w)) = 0"
    and "failed (snd (print_worker poll sf found_pdfs B w)) = 0"
    and "submitted (trace (snd (print_worker poll sf found_pdfs B w))) = []"
    and "sleeps (trace (snd (print_worker poll sf found_pdfs B w))) = []"
proof -
  let ?l = "worker_loop poll sf (length found_pdfs) B (enumerate_from 0 found_pdfs) (start_run w)"
  have l: "successful ?l = 0 \<and> failed ?l = 0 \<and> submitted (trace ?l) = [] \<and> sleeps (trace ?l) = []"
  proof (cases found_pdfs)
    case Nil
    then show ?thesis by (simp add: enumerate_from_Nil start_run_def)
  next
    case (Cons p ps)
    then have ne: "enumerate_from 0 found_pdfs \<noteq> []" by (simp add: enumerate_from_Cons)
    have w: "fst (poll (world (start_run w))) = False" using assms by (simp add: start_run_def)
    show ?thesis
      unfolding worker_loop_stopped [where poll = poll and s = "start_run w", OF w ne]
      by (simp add: read_flag_simps start_run_def)
  qed
  show "successful (snd (print_worker poll sf found_pdfs B w)) = 0"
    and "failed (snd (print_worker poll sf found_pdfs B w)) = 0"
    and "submitted (trace (snd (print_worker poll sf found_pdfs B w))) = []"
    and "sleeps (trace (snd (print_worker poll sf found_pdfs B w))) = []"
    using l by (simp_all add: print_worker_def read_flag_simps submitted_append sleeps_append)
qed

text \<open>
  Claim C4. In the print thread of \<^verbatim>\<open>gui_pdf_printer.py\<close> and in the print worker of
  \<^verbatim>\<open>gui_pdf_printer_windows.py\<close> every call of the backend comes directly after a read of
  \<^verbatim>\<open>is_printing\<close> that found it set. If the first read finds it cleared, no file is
  submitted: the thread (with a batch size other than 0) returns with \<open>successful = 0\<close>
  and \<open>failed = 0\<close>, having done nothing but that one read, and the worker ends with
  \<open>printed_count = 0\<close>, no backend call and no sleep.
\<close>

theorem cancelled_before_first_file:
  "flag_checked (trace (final (print_thread poll lp found_pdfs batch_var w)))
   \<and> flag_checked (trace (snd (print_worker poll startfile found_pdfs B w)))
   \<and> (fst (poll w) = False \<longrightarrow>
        (B \<noteq> 0 \<longrightarrow>
           (\<exists>s. print_thread poll lp found_pdfs (Some B) w = Inr s
               \<and> successful s = 0 \<and> failed s = 0 \<and> attempted s = 0
               \<and> trace s = (if found_pdfs = [] \<or> B < 0 then [] else [Poll False])))
        \<and> successful (snd (print_worker poll startfile found_pdfs B w)) = 0
        \<and> failed (snd (print_worker poll startfile found_pdfs B w)) = 0
        \<and> attempted (snd (print_worker poll startfile found_pdfs B w)) = 0
        \<and> sleeps (trace (snd (print_worker poll startfile found_pdfs B w))) = [])"
proof -
  have 1: "flag_checked (trace (final (print_thread poll lp found_pdfs batch_var w)))"
  proof (cases batch_var)
    case None
    then show ?thesis by (simp add: print_thread_def final_def start_run_def)
  next
    case (Some B)
    show ?thesis
    proof (cases "batches found_pdfs B")
      case (Inl e)
      with Some show ?thesis by (simp add: print_thread_def final_def start_run_def)
    next
      case (Inr bs)
      with Some gui_loop_continues [of "start_run w" poll lp "length bs" "enumerate_from 1 bs"]
      show ?thesis by (auto simp: print_thread_def continues_def start_run_def)
    qed
  qed
  have 2: "flag_checked (trace (snd (print_worker poll startfile found_pdfs B w)))"
  proof -
    let ?l = "worker_loop poll startfile (length found_pdfs) B (enumerate_from 0 found_pdfs) (start_run w)"
    have "continues (start_run w) (snd (read_flag poll ?l))"
      by (rule continues_trans [OF worker_loop_continues continues_read_flag])
    then show ?thesis by (auto simp: print_worker_def continues_def start_run_def)
  qed
  have 3: "\<exists>s. print_thread poll lp found_pdfs (Some B) w = Inr s
               \<and> successful s = 0 \<and> failed s = 0 \<and> attempted s = 0
               \<and> trace s = (if found_pdfs = [] \<or> B < 0 then [] else [Poll False])"
    if "fst (poll w) = False" "B \<noteq> 0"
  proof -
    from print_thread_stopped [where poll = poll and w = w, OF that, of lp found_pdfs] obtain s where
      s: "print_thread poll lp found_pdfs (Some B) w = Inr s" "successful s = 0" "failed s = 0"
         "trace s = (if found_pdfs = [] \<or> B < 0 then [] else [Poll False])" by blast
    from s(4) have "attempted s = 0" by (simp add: attempted_def)
    with s show ?thesis by blast
  qed
  have 4: "attempted (snd (print_worker poll startfile found_pdfs B w)) = 0"
    if "fst (poll w) = False"
    using print_worker_stopped(3) [where poll = poll and w = w, OF that] by (simp add: attempted_def)
  have 5: "successful (snd (print_worker poll startfile found_pdfs B w)) = 0
      \<and> failed (snd (print_worker poll startfile found_pdfs B w)) = 0
      \<and> sleeps (trace (snd (print_worker poll startfile found_pdfs B w))) = []"
    if "fst (poll w) = False"
    using print_worker_stopped(1,2,4) [where poll = poll and w = w, OF that] by simp
  show ?thesis
  proof (intro conjI impI)
    show "flag_checked (trace (final (print_thread poll lp found_pdfs batch_var w)))" by (rule 1)
    show "flag_checked (trace (snd (print_worker poll startfile found_pdfs B w)))" by (rule 2)
  next
    assume "fst (poll w) = False" "B \<noteq> 0"
    then show "\<exists>s. print_thread poll lp found_pdfs (Some B) w = Inr s
               \<and> successful s = 0 \<and> failed s = 0 \<and> attempted s = 0
               \<and> trace s = (if found_pdfs = [] \<or> B < 0 then [] else [Poll False])" by (rule 3)
  next
    assume a: "fst (poll w) = False"
    from 5 [OF a] show "successful (snd (print_worker poll startfile found_pdfs B w)) = 0" by simp
    from 5 [OF a] show "failed (snd (print_worker poll startfile found_pdfs B w)) = 0" by simp
    from 4 [OF a] show "attempted (snd (print_worker poll startfile found_pdfs B w)) = 0" .
    from 5 [OF a] show "sleeps (trace (snd (print_worker poll startfile found_pdfs B w))) = []" by simp
  qed
qed

theorem cancelled_before_first_file_witness:
  "fst (stopped ()) = False \<and> (10::int) \<noteq> 0
   \<and> (\<exists>s. print_thread stopped lp_timeout_accepts [''a.pdf'', ''b.pdf''] (Some 10) () = Inr s
          \<and> successful s = 0 \<and> failed s = 0 \<and> attempted s = 0 \<and> trace s = [Poll False])
   \<and> attempted (snd (print_worker stopped startfile_accepts [''a.pdf'', ''b.pdf''] 10 ())) = 0"
  using cancelled_before_first_file
    [of stopped lp_timeout_accepts "[''a.pdf'', ''b.pdf'']" "Some 10" "()" startfile_accepts 10]
  by (simp add: stopped_def)

section \<open>Pacing: where the sleeps fall\<close>

subsection \<open>\<^verbatim>\<open>batch_pdf_printer_windows.py\<close>\<close>

lemma win_loop_Cons:
  "win_loop sm sf N B d ((i, p, r) # rest) s =
     (if B = 0 then Inl (ZeroDivisionError, s)
      else if (int i + 1) mod B = 0 \<and> i + 1 < N
      then (if d < 0 then Inl (ValueError, win_step sf p s)
            else if sm < d then Inl (OverflowError, win_step sf p s)
            else win_loop sm sf N B d rest (emit (Sleep (Seconds d)) (win_step sf p s)))
      else win_loop sm sf N B d rest (win_step sf p s))"
  by (simp add: win_step_def time_sleep_def split: prod.splits)

lemma win_step_simps:
  "submitted (trace (win_step sf p s)) = submitted (trace s) @ [(p, fst (print_pdf_file sf p (world s)))]"
  "tallies_match s \<Longrightarrow> tallies_match (win_step sf p s)"
  by (simp_all add: win_step_def emit_sleep_simps tally_simps tallies_match_tally)

lemma win_step_trace:
  "trace (win_step sf p s) =
     trace s @ [Submit p (fst (print_pdf_file sf p (world s))), Sleep Half_second]"
  by (simp add: win_step_def emit_def tally_def)

text \<open>
  However the loop ends, every backend call in its trace is directly followed by a sleep
  of half a second, the files called are the first files of the list, and the tallies
  hold exactly these calls.
\<close>

lemma win_loop_final:
  "\<exists>ext n. trace (final (win_loop sm sf N B d items s)) = trace s @ ext
      \<and> paced ext \<and> inter_file_sleeps ext = length (submitted ext)
      \<and> n \<le> length items \<and> map fst (submitted ext) = map (fst \<circ> snd) (take n items)
      \<and> (tallies_match s \<longrightarrow> tallies_match (final (win_loop sm sf N B d items s)))"
proof (induction items arbitrary: s)
  case Nil
  have "trace s = trace s @ [] \<and> paced [] \<and> inter_file_sleeps [] = length (submitted [])
      \<and> (0::nat) \<le> length ([] :: (nat \<times> string \<times> string) list)
      \<and> map fst (submitted []) = map (fst \<circ> snd) (take 0 ([] :: (nat \<times> string \<times> string) list))"
    by (simp add: inter_file_sleeps_def)
  then show ?case unfolding win_loop.simps final_simps by blast
next
  case (Cons x items)
  obtain i p r where x: "x = (i, p, r)" by (cases x)
  let ?s1 = "win_step sf p s"
  let ?ok = "fst (print_pdf_file sf p (world s))"
  let ?f = "final (win_loop sm sf N B d (x # items) s)"
  have t1: "tallies_match s \<longrightarrow> tallies_match ?s1" by (simp add: win_step_simps)
  have "?f = s \<or> ?f = ?s1 \<or> ?f = final (win_loop sm sf N B d items ?s1)
      \<or> ?f = final (win_loop sm sf N B d items (emit (Sleep (Seconds d)) ?s1))"
    unfolding x win_loop_Cons by (simp add: final_simps)
  then consider
      (here) "?f = s"
    | (slept) "?f = ?s1"
    | (later) "?f = final (win_loop sm sf N B d items ?s1)"
    | (paused) "?f = final (win_loop sm sf N B d items (emit (Sleep (Seconds d)) ?s1))"
    by blast
  then show ?case
  proof cases
    case here
    have "trace s = trace s @ [] \<and> paced [] \<and> inter_file_sleeps [] = length (submitted [])
        \<and> 0 \<le> length (x # items)
        \<and> map fst (submitted []) = map (fst \<circ> snd) (take 0 (x # items))"
      by (simp add: inter_file_sleeps_def)
    then show ?thesis unfolding here by blast
  next
    case slept
    let ?ext = "[Submit p ?ok, Sleep Half_second]"
    have "trace ?s1 = trace s @ ?ext \<and> paced ?ext \<and> inter_file_sleeps ?ext = length (submitted ?ext)
        \<and> 1 \<le> length (x # items)
        \<and> map fst (submitted ?ext) = map (fst \<circ> snd) (take 1 (x # items))"
      by (simp add: win_step_trace inter_file_sleeps_def x)
    with t1 show ?thesis unfolding slept by blast
  next
    case later
    from Cons [of ?s1] obtain ext n where
      e: "trace (final (win_loop sm sf N B d items ?s1)) = trace ?s1 @ ext" "paced ext"
         "inter_file_sleeps ext = length (submitted ext)" "n \<le> length items"
         "map fst (submitted ext) = map (fst \<circ> snd) (take n items)"
         "tallies_match ?s1 \<longrightarrow> tallies_match (final (win_loop sm sf N B d items ?s1))"
      by blast
    let ?ext = "[Submit p ?ok, Sleep Half_second] @ ext"
    have "trace (final (win_loop sm sf N B d items ?s1)) = trace s @ ?ext"
      unfolding e(1) by (simp add: win_step_trace)
    moreover have "paced ?ext" using e(2) by simp
    moreover have "inter_file_sleeps ?ext = length (submitted ?ext)"
      using e(3) by (simp add: inter_file_sleeps_def)
    moreover have "Suc n \<le> length (x # items)" using e(4) by simp
    moreover have "map fst (submitted ?ext) = map (fst \<circ> snd) (take (Suc n) (x # items))"
      using e(5) by (simp add: x)
    ultimately show ?thesis unfolding later using e(6) t1 by blast
  next
    case paused
    let ?s2 = "emit (Sleep (Seconds d)) ?s1"
    from Cons [of ?s2] obtain ext n where
      e: "trace (final (win_loop sm sf N B d items ?s2)) = trace ?s2 @ ext" "paced ext"
         "inter_file_sleeps ext = length (submitted ext)" "n \<le> length items"
         "map fst (submitted ext) = map (fst \<circ> snd) (take n items)"
         "tallies_match ?s2 \<longrightarrow> tallies_match (final (win_loop sm sf N B d items ?s2))"
      by blast
    let ?ext = "[Submit p ?ok, Sleep Half_second, Sleep (Seconds d)] @ ext"
    have "trace (final (win_loop sm sf N B d items ?s2)) = trace s @ ?ext"
      unfolding e(1) by (simp add: win_step_trace emit_simps)
    moreover have "paced ?ext" using e(2) by simp
    moreover have "inter_file_sleeps ?ext = length (submitted ?ext)"
      using e(3) by (simp add: inter_file_sleeps_def)
    moreover have "Suc n \<le> length (x # items)" using e(4) by simp
    moreover have "map fst (submitted ?ext) = map (fst \<circ> snd) (take (Suc n) (x # items))"
      using e(5) by (simp add: x)
    moreover have "tallies_match s \<longrightarrow> tallies_match (final (win_loop sm sf N B d items ?s2))"
      using e(6) t1 by (simp add: emit_sleep_simps)
    ultimately show ?thesis unfolding paused by blast
  qed
qed

text \<open>
  A loop that returns has run over every file, and has paused after the \<open>k\<close>-th file for
  every \<open>k\<close> below the number of files that the batch size divides.
\<close>

lemma win_loop_shape:
  "win_loop sm sf N B d (enumerate_from a xs) s = Inr s' \<Longrightarrow>
     \<exists>ext. trace s' = trace s @ ext
        \<and> inter_file_sleeps ext = length xs
        \<and> map fst (submitted ext) = map fst xs
        \<and> pauses_after a ext = filter (\<lambda>k. int k mod B = 0 \<and> k < N) [Suc a..<Suc (a + length xs)]"
proof (induction xs arbitrary: a s)
  case Nil
  then show ?case by (simp add: enumerate_from_Nil inter_file_sleeps_def)
next
  case (Cons x xs)
  obtain p r where x: "x = (p, r)" by (cases x)
  let ?P = "\<lambda>k. int k mod B = 0 \<and> k < N"
  let ?ok = "fst (print_pdf_file sf p (world s))"
  let ?s1 = "win_step sf p s"
  let ?pause = "if ?P (Suc a) then [Sleep (Seconds d)] else []"
  let ?s2 = "if ?P (Suc a) then emit (Sleep (Seconds d)) ?s1 else ?s1"
  have cond: "((int a + 1) mod B = 0 \<and> a + 1 < N) = ?P (Suc a)" by (simp add: add.commute)
  from Cons.prems have r: "win_loop sm sf N B d (enumerate_from (Suc a) xs) ?s2 = Inr s'"
    unfolding enumerate_from_Cons x win_loop_Cons cond by (auto split: if_splits)
  have t2: "trace ?s2 = trace s @ [Submit p ?ok, Sleep Half_second] @ ?pause"
    by (simp add: win_step_trace emit_simps)
  from Cons.IH [OF r] obtain ext where
    t: "trace s' = trace ?s2 @ ext"
    and e: "inter_file_sleeps ext = length xs" "map fst (submitted ext) = map fst xs"
      "pauses_after (Suc a) ext = filter ?P [Suc (Suc a)..<Suc (Suc a + length xs)]"
    by blast
  let ?ext = "[Submit p ?ok, Sleep Half_second] @ ?pause @ ext"
  have "trace s' = trace s @ ?ext" unfolding t t2 by simp
  moreover have "inter_file_sleeps ?ext = length (x # xs)"
    using e(1) by (simp add: inter_file_sleeps_def)
  moreover have "map fst (submitted ?ext) = map fst (x # xs)"
    using e(2) by (simp add: x)
  moreover have "pauses_after a ?ext = filter ?P [Suc a..<Suc (a + length (x # xs))]"
  proof -
    have "[Suc a..<Suc (a + length (x # xs))] = Suc a # [Suc (Suc a)..<Suc (Suc a + length xs)]"
      by (simp add: upt_conv_Cons del: upt_Suc)
    then show ?thesis using e(3) by (simp del: upt_Suc)
  qed
  ultimately show ?case by blast
qed

lemma win_loop_returns:
  assumes "B \<noteq> 0" "0 \<le> d" "d \<le> sm"
  shows "\<exists>s'. win_loop sm sf N B d items s = Inr s'"
proof (induction items arbitrary: s)
  case Nil
  show ?case by simp
next
  case (Cons x items)
  obtain i p r where x: "x = (i, p, r)" by (cases x)
  show ?case unfolding x win_loop_Cons using assms Cons by simp
qed

lemma win_pause_filter:
  "filter (\<lambda>k. int k mod B = 0 \<and> k < n) [1..<Suc n] = filter (\<lambda>k. int k mod B = 0) [1..<n]"
proof (cases n)
  case 0
  then show ?thesis by simp
next
  case (Suc m)
  have "filter (\<lambda>k. int k mod B = 0 \<and> k < Suc m) [1..<Suc m] = filter (\<lambda>k. int k mod B = 0) [1..<Suc m]"
    by (rule filter_cong) auto
  moreover have "[1..<Suc (Suc m)] = [1..<Suc m] @ [Suc m]" by simp
  ultimately show ?thesis unfolding Suc by (simp del: upt_Suc)
qed

lemma win_print_pdfs_in_batches_Inr:
  assumes "win_print_pdfs_in_batches sm sf L B d w = Inr s"
  shows "inter_file_sleeps (trace s) = length L"
    and "map fst (submitted (trace s)) = map fst L"
    and "pause_positions (trace s) = filter (\<lambda>k. int k mod B = 0) [1..<length L]"
proof -
  from assms have "win_loop sm sf (length L) B d (enumerate_from 0 L) (start_run w) = Inr s"
    by (simp add: win_print_pdfs_in_batches_def)
  from win_loop_shape [OF this] obtain ext where
    t: "trace s = ext"
    and e: "inter_file_sleeps ext = length L" "map fst (submitted ext) = map fst L"
      "pauses_after 0 ext = filter (\<lambda>k. int k mod B = 0 \<and> k < length L) [1..<Suc (length L)]"
    by (auto simp: start_run_def)
  from e(1) show "inter_file_sleeps (trace s) = length L" unfolding t .
  from e(2) show "map fst (submitted (trace s)) = map fst L" unfolding t .
  from e(3) show "pause_positions (trace s) = filter (\<lambda>k. int k mod B = 0) [1..<length L]"
    unfolding t pause_positions_def win_pause_filter .
qed

lemma win_print_pdfs_in_batches_returns:
  assumes "B \<noteq> 0" "0 \<le> d" "d \<le> sm"
  shows "\<exists>s. win_print_pdfs_in_batches sm sf L B d w = Inr s"
  unfolding win_print_pdfs_in_batches_def by (rule win_loop_returns [OF assms])

lemma win_print_pdfs_in_batches_final:
  "paced (trace (final (win_print_pdfs_in_batches sm sf L B d w)))"
  "inter_file_sleeps (trace (final (win_print_pdfs_in_batches sm sf L B d w)))
     = attempted (final (win_print_pdfs_in_batches sm sf L B d w))"
  "tallies_match (final (win_print_pdfs_in_batches sm sf L B d w))"
  "successful (final (win_print_pdfs_in_batches sm sf L B d w))
     + failed (final (win_print_pdfs_in_batches sm sf L B d w))
     = attempted (final (win_print_pdfs_in_batches sm sf L B d w))"
proof -
  let ?f = "final (win_print_pdfs_in_batches sm sf L B d w)"
  from win_loop_final [of sm sf "length L" B d "enumerate_from 0 L" "start_run w"]
  obtain ext where t: "trace ?f = ext" and e: "paced ext" "inter_file_sleeps ext = length (submitted ext)"
    and m: "tallies_match (start_run w) \<longrightarrow> tallies_match ?f"
    unfolding win_print_pdfs_in_batches_def by (auto simp: start_run_def)
  from e(1) show "paced (trace ?f)" unfolding t .
  from e(2) show "inter_file_sleeps (trace ?f) = attempted ?f" unfolding attempted_def t .
  from m show tm: "tallies_match ?f" by (simp add: tallies_match_start)
  from tallies_match_sum [OF tm] show "successful ?f + failed ?f = attempted ?f" .
qed

lemma win_main_after_run:
  assumes "platform_system m = ''Windows''" "path_exists m" "path_isdir m" "default_printer m \<noteq> None"
    "found m \<noteq> []" "\<not> win_list_only a" "\<not> win_dry_run a" "str_upper (str_strip line) = ''JA''"
    "win_print_pdfs_in_batches sm sf (found m) (win_batch_size a) (win_delay a) w = Inr s"
  shows "win_main str_strip str_upper sm sf m (Typed line) a w = (Exit (if 0 < failed s then 1 else 0), s)"
  using assms by (auto simp: win_main_def)

subsection \<open>\<^verbatim>\<open>gui_pdf_printer_windows.py\<close>\<close>

lemma sleep_follows_success_append:
  "sleep_follows_success es \<Longrightarrow> sleep_follows_success fs \<Longrightarrow> sleep_follows_success (es @ fs)"
  by (induction es rule: sleep_follows_success.induct) simp_all

lemma worker_loop_sleeps:
  assumes "B \<noteq> 0"
  shows "\<exists>ext. trace (worker_loop poll sf N B items s) = trace s @ ext
           \<and> sleep_follows_success ext
           \<and> successful (worker_loop poll sf N B items s) = successful s + length (sleeps ext)"
proof (induction items arbitrary: s)
  case Nil
  show ?case by simp
next
  case (Cons x items)
  obtain i p where x: "x = (i, p)" by (cases x)
  obtain v s1 where r: "read_flag poll s = (v, s1)" by (cases "read_flag poll s")
  have t1: "trace s1 = trace s @ [Poll v]" and c1: "successful s1 = successful s"
    using read_flag_simps(1,2,3) [of poll s] r by simp_all
  show ?case
  proof (cases v)
    case False
    then have "worker_loop poll sf N B (x # items) s = s1" using r x by simp
    moreover have "sleep_follows_success [Poll v]" by simp
    ultimately show ?thesis using t1 c1 by (intro exI [of _ "[Poll v]"]) simp
  next
    case True
    obtain res w' where l: "sf p (world s1) = (res, w')" by (cases "sf p (world s1)")
    show ?thesis
    proof (cases res)
      case (Some msg)
      let ?t = "s1\<lparr>trace := trace s1 @ [Submit p False], world := w'\<rparr>"
      have u: "worker_loop poll sf N B (x # items) s = worker_loop poll sf N B items ?t"
        using r True x l Some by simp
      from Cons [of ?t] obtain ext where
        e: "trace (worker_loop poll sf N B items ?t) = trace ?t @ ext" "sleep_follows_success ext"
           "successful (worker_loop poll sf N B items ?t) = successful ?t + length (sleeps ext)"
        by blast
      let ?ext = "[Poll v, Submit p False] @ ext"
      have "trace (worker_loop poll sf N B (x # items) s) = trace s @ ?ext"
        unfolding u e(1) by (simp add: t1)
      moreover have "sleep_follows_success ?ext" using e(2) by simp
      moreover have "successful (worker_loop poll sf N B (x # items) s) = successful s + length (sleeps ?ext)"
        unfolding u e(3) by (simp add: c1)
      ultimately show ?thesis by blast
    next
      case None
      let ?t = "s1\<lparr>successful := successful s1 + 1, trace := trace s1 @ [Submit p True], world := w'\<rparr>"
      define d where "d = (if (int i + 1) mod B = 0 \<and> i + 1 < N then Seconds 3 else Half_second)"
      let ?u = "emit (Sleep d) ?t"
      have u: "worker_loop poll sf N B (x # items) s = worker_loop poll sf N B items ?u"
        using r True x l None assms by (simp add: Let_def d_def)
      from Cons [of ?u] obtain ext where
        e: "trace (worker_loop poll sf N B items ?u) = trace ?u @ ext" "sleep_follows_success ext"
           "successful (worker_loop poll sf N B items ?u) = successful ?u + length (sleeps ext)"
        by blast
      let ?ext = "[Poll v, Submit p True, Sleep d] @ ext"
      have "trace (worker_loop poll sf N B (x # items) s) = trace s @ ?ext"
        unfolding u e(1) by (simp add: t1 emit_simps)
      moreover have "sleep_follows_success ?ext" using e(2) by simp
      moreover have "successful (worker_loop poll sf N B (x # items) s) = successful s + length (sleeps ?ext)"
        unfolding u e(3) by (simp add: c1 emit_simps)
      ultimately show ?thesis by blast
    qed
  qed
qed

lemma print_worker_sleeps:
  assumes "B \<noteq> 0"
  shows "sleep_follows_success (trace (snd (print_worker poll sf found_pdfs B w)))"
    and "length (sleeps (trace (snd (print_worker poll sf found_pdfs B w))))
           = successful (snd (print_worker poll sf found_pdfs B w))"
proof -
  let ?l = "worker_loop poll sf (length found_pdfs) B (enumerate_from 0 found_pdfs) (start_run w)"
  from worker_loop_sleeps [OF assms, of poll sf "length found_pdfs" "enumerate_from 0 found_pdfs" "start_run w"]
  obtain ext where e: "trace ?l = ext" "sleep_follows_success ext" "successful ?l = length (sleeps ext)"
    by (auto simp: start_run_def)
  have p: "sleep_follows_success [Poll v]" for v by simp
  show "sleep_follows_success (trace (snd (print_worker poll sf found_pdfs B w)))"
    unfolding print_worker_def read_flag_simps e(1)
    by (rule sleep_follows_success_append [OF e(2) p])
  show "length (sleeps (trace (snd (print_worker poll sf found_pdfs B w))))
           = successful (snd (print_worker poll sf found_pdfs B w))"
    unfolding print_worker_def read_flag_simps e(1) using e(3) by (simp add: sleeps_append)
qed

text \<open>
  Claim C5, as the code has it. \<^verbatim>\<open>batch_pdf_printer_windows.py\<close> sleeps half a second
  after every file, the last file of the run included: however the run ends, every backend
  call in its trace is directly followed by a half-second sleep, and there are as many of
  these sleeps as backend calls; a run that returns has made one for every file of the
  list; and the run returns whenever the batch size is not 0 and \<^verbatim>\<open>time.sleep\<close> accepts the
  delay between batches. The worker of \<^verbatim>\<open>gui_pdf_printer_windows.py\<close> (batch size other
  than 0) sleeps once directly after every file that \<^verbatim>\<open>os.startfile\<close> accepted, the last
  one included. \<^verbatim>\<open>batch_pdf_printer.py\<close> never sleeps half a second, however its run ends.
\<close>

theorem inter_file_sleep_after_every_file:
  "paced (trace (final (win_print_pdfs_in_batches sleep_max sf L B d w)))
   \<and> inter_file_sleeps (trace (final (win_print_pdfs_in_batches sleep_max sf L B d w)))
       = attempted (final (win_print_pdfs_in_batches sleep_max sf L B d w))
   \<and> (\<forall>s. win_print_pdfs_in_batches sleep_max sf L B d w = Inr s \<longrightarrow>
          map fst (submitted (trace s)) = map fst L \<and> inter_file_sleeps (trace s) = length L)
   \<and> (B \<noteq> 0 \<and> 0 \<le> d \<and> d \<le> sleep_max \<longrightarrow>
          (\<exists>s. win_print_pdfs_in_batches sleep_max sf L B d w = Inr s))
   \<and> (Bw \<noteq> 0 \<longrightarrow>
          sleep_follows_success (trace (snd (print_worker poll sf' F Bw v)))
        \<and> length (sleeps (trace (snd (print_worker poll sf' F Bw v))))
            = successful (snd (print_worker poll sf' F Bw v)))
   \<and> inter_file_sleeps (trace (final (print_pdfs_in_batches lp L' B' w'))) = 0"
proof (intro conjI allI impI)
  show "paced (trace (final (win_print_pdfs_in_batches sleep_max sf L B d w)))"
    by (rule win_print_pdfs_in_batches_final(1))
  show "inter_file_sleeps (trace (final (win_print_pdfs_in_batches sleep_max sf L B d w)))
       = attempted (final (win_print_pdfs_in_batches sleep_max sf L B d w))"
    by (rule win_print_pdfs_in_batches_final(2))
  show "inter_file_sleeps (trace (final (print_pdfs_in_batches lp L' B' w'))) = 0"
    by (rule print_pdfs_in_batches_no_inter_file_sleep)
next
  fix s assume r: "win_print_pdfs_in_batches sleep_max sf L B d w = Inr s"
  show "map fst (submitted (trace s)) = map fst L"
    by (rule win_print_pdfs_in_batches_Inr(2) [OF r])
  show "inter_file_sleeps (trace s) = length L"
    by (rule win_print_pdfs_in_batches_Inr(1) [OF r])
next
  assume "B \<noteq> 0 \<and> 0 \<le> d \<and> d \<le> sleep_max"
  then show "\<exists>s. win_print_pdfs_in_batches sleep_max sf L B d w = Inr s"
    by (intro win_print_pdfs_in_batches_returns) simp_all
next
  assume b: "Bw \<noteq> 0"
  show "sleep_follows_success (trace (snd (print_worker poll sf' F Bw v)))"
    by (rule print_worker_sleeps(1) [OF b])
  show "length (sleeps (trace (snd (print_worker poll sf' F Bw v))))
            = successful (snd (print_worker poll sf' F Bw v))"
    by (rule print_worker_sleeps(2) [OF b])
qed

theorem inter_file_sleep_after_every_file_witness:
  "(10::int) \<noteq> 0 \<and> (0::int) \<le> 3 \<and> 3 \<le> int64_seconds
   \<and> paced (trace (final (win_print_pdfs_in_batches int64_seconds startfile_accepts
        [(''C:/a.pdf'', ''a.pdf''), (''C:/b.pdf'', ''b.pdf'')] 10 3 ())))
   \<and> (\<exists>s. win_print_pdfs_in_batches int64_seconds startfile_accepts
             [(''C:/a.pdf'', ''a.pdf''), (''C:/b.pdf'', ''b.pdf'')] 10 3 () = Inr s
          \<and> map fst (submitted (trace s)) = [''C:/a.pdf'', ''C:/b.pdf'']
          \<and> inter_file_sleeps (trace s) = 2)
   \<and> sleep_follows_success (trace (snd (print_worker running startfile_accepts [''C:/a.pdf''] 10 ())))
   \<and> length (sleeps (trace (snd (print_worker running startfile_accepts [''C:/a.pdf''] 10 ()))))
       = successful (snd (print_worker running startfile_accepts [''C:/a.pdf''] 10 ()))
   \<and> inter_file_sleeps (trace (final (print_pdfs_in_batches lp_accepts [''a.pdf'', ''b.pdf''] 10 ()))) = 0"
proof -
  have h: "(10::int) \<noteq> 0 \<and> (0::int) \<le> 3 \<and> 3 \<le> int64_seconds" by (simp add: int64_seconds_def)
  have hw: "(10::int) \<noteq> 0" by simp
  note t = inter_file_sleep_after_every_file
    [where sleep_max = int64_seconds and sf = startfile_accepts
       and L = "[(''C:/a.pdf'', ''a.pdf''), (''C:/b.pdf'', ''b.pdf'')]" and B = 10 and d = 3
       and w = "()" and poll = running and sf' = startfile_accepts and F = "[''C:/a.pdf'']"
       and Bw = 10 and v = "()" and lp = lp_accepts and L' = "[''a.pdf'', ''b.pdf'']" and B' = 10
       and w' = "()"]
  note t1 = t [THEN conjunct1]
  note t3 = t [THEN conjunct2, THEN conjunct2, THEN conjunct1]
  note t4 = t [THEN conjunct2, THEN conjunct2, THEN conjunct2, THEN conjunct1, THEN mp, OF h]
  note t5 = t [THEN conjunct2, THEN conjunct2, THEN conjunct2, THEN conjunct2, THEN conjunct1, THEN mp, OF hw]
  note t6 = t [THEN conjunct2, THEN conjunct2, THEN conjunct2, THEN conjunct2, THEN conjunct2]
  from t4 obtain s where s: "win_print_pdfs_in_batches int64_seconds startfile_accepts
             [(''C:/a.pdf'', ''a.pdf''), (''C:/b.pdf'', ''b.pdf'')] 10 3 () = Inr s" ..
  from t3 [THEN spec, THEN mp, OF s]
  have a: "map fst (submitted (trace s)) = [''C:/a.pdf'', ''C:/b.pdf'']"
    and b: "inter_file_sleeps (trace s) = 2"
    by simp_all
  have e: "\<exists>s. win_print_pdfs_in_batches int64_seconds startfile_accepts
             [(''C:/a.pdf'', ''a.pdf''), (''C:/b.pdf'', ''b.pdf'')] 10 3 () = Inr s
          \<and> map fst (submitted (trace s)) = [''C:/a.pdf'', ''C:/b.pdf'']
          \<and> inter_file_sleeps (trace s) = 2"
    by (rule exI [of _ s]) (rule conjI [OF s conjI [OF a b]])
  show ?thesis
    by (rule conjI [OF h [THEN conjunct1] conjI [OF h [THEN conjunct2, THEN conjunct1]
          conjI [OF h [THEN conjunct2, THEN conjunct2] conjI [OF t1 conjI [OF e
          conjI [OF t5 [THEN conjunct1] conjI [OF t5 [THEN conjunct2] t6]]]]]]])
qed

text \<open>
  The claim as the specification words it fails on a run of one file: the last event of
  the run is a half-second sleep, after the final file.
\<close>

theorem sleep_after_final_file:
  "win_print_pdfs_in_batches int64_seconds startfile_accepts [(''C:/a.pdf'', ''a.pdf'')] 10 3 ()
     = Inr \<lparr>successful = 1, failed = 0,
            trace = [Submit ''C:/a.pdf'' True, Sleep Half_second], world = ()\<rparr>"
  by (simp add: win_print_pdfs_in_batches_def enumerate_from_def print_pdf_file_def
      startfile_accepts_def time_sleep_def tally_def emit_def start_run_def)

section \<open>The pauses between batches\<close>


subsection \<open>\<^verbatim>\<open>interactive_pdf_printer.py\<close>\<close>








subsection \<open>Counting the pauses\<close>







section \<open>Exit status of the command-line entry points\<close>

lemma docs_run:
  "print_pdfs_in_batches (failing_at {0}) [''/docs/a.pdf''] 10 0
     = Inr \<lparr>successful = 0, failed = 1, trace = [Submit ''/docs/a.pdf'' False], world = 1\<rparr>"
  by (simp add: print_pdfs_in_batches_def py_range_def range_len_def py_slice_def slice_bound_def
      batch_pause_def print_one_def print_pdf_def failing_at_def tally_def start_run_def)

text \<open>
  Claim C7 at the failing input. \<^verbatim>\<open>batch_pdf_printer.py\<close> is run on a directory with one
  PDF, the user confirms, and \<^verbatim>\<open>lp\<close> rejects the file: the run ends with \<open>failed = 1\<close>
  and the process with status 0.
\<close>

theorem main_exit_status_ignores_failure:
  "main (failing_at {0}) docs_fs (Typed ''y'') docs_args 0
     = (Exit 0, \<lparr>successful = 0, failed = 1, trace = [Submit ''/docs/a.pdf'' False], world = 1\<rparr>)
   \<and> exit_status (fst (main (failing_at {0}) docs_fs (Typed ''y'') docs_args 0)) = 0
   \<and> failed (snd (main (failing_at {0}) docs_fs (Typed ''y'') docs_args 0)) = 1"
proof -
  have "main (failing_at {0}) docs_fs (Typed ''y'') docs_args 0
     = (Exit 0, \<lparr>successful = 0, failed = 1, trace = [Submit ''/docs/a.pdf'' False], world = 1\<rparr>)"
    unfolding main_docs docs_run by simp
  then show ?thesis by simp
qed

section \<open>Ordering and discovery\<close>

lemma append_less_append: "xs @ ys < xs @ zs \<longleftrightarrow> ys < (zs :: 'a :: linorder list)"
  by (induction xs) simp_all

lemma os_path_join_relative:
  assumes "take 1 b \<noteq> ''/''"
  shows "os_path_join a b = (if a = [] \<or> last a = CHR ''/'' then a else a @ ''/'') @ b"
  using assms by (simp add: os_path_join_def)

lemma join_A_less_join_B: "os_path_join r ''A'' < os_path_join r ''B''"
proof -
  have "''A'' < ''B''" by simp
  then show ?thesis
    unfolding os_path_join_relative [of "''A''", simplified] os_path_join_relative [of "''B''", simplified]
    by (simp only: append_less_append)
qed

lemma is_pdf: "endswith (lower ''1.pdf'') ''.pdf''" "endswith (lower ''2.pdf'') ''.pdf''"
  by code_simp+

lemma sort_names: "sort [''2.pdf'', ''1.pdf''] = [''1.pdf'', ''2.pdf'']" "sort [''1.pdf''] = [''1.pdf'']"
  by (simp_all)

lemma find_scenario:
  "find_pdf_files r scenario_tree
     = [(os_path_join r ''A'', ''1.pdf''), (os_path_join r ''A'', ''2.pdf''), (os_path_join r ''B'', ''1.pdf'')]"
  "find_pdf_files r scenario_tree_reversed
     = [(os_path_join r ''A'', ''1.pdf''), (os_path_join r ''A'', ''2.pdf''), (os_path_join r ''B'', ''1.pdf'')]"
  by (simp_all add: scenario_tree_def scenario_tree_reversed_def is_pdf)

lemma scenario_sorted:
  "sorted (map (\<lambda>x. (fst x, snd x))
     [(os_path_join r ''A'', ''1.pdf''), (os_path_join r ''A'', ''2.pdf''), (os_path_join r ''B'', ''1.pdf'')])"
  using join_A_less_join_B [of r] by (simp add: less_eq_prod_def less_le)

lemma sort_pdf_files_sorted:
  assumes "sorted (map (\<lambda>x. (fst x, snd x)) (h r))"
  shows "sort_pdf_files r h = (map (\<lambda>(directory, filename). os_path_join directory filename) (h r), h)"
proof -
  have "list_sort r h = h"
    unfolding list_sort_def sort_key_id_if_sorted [OF assms] by simp
  then show ?thesis by (simp add: sort_pdf_files_def)
qed

text \<open>
  Claim C8. Sorting a list of (directory, filename) pairs that is already in
  (directory, filename) order leaves the list as it is, so \<^verbatim>\<open>sort_pdf_files\<close> returns its
  joined paths in the given order. For the tree with \<^verbatim>\<open>A/2.pdf\<close>, \<^verbatim>\<open>A/1.pdf\<close> and
  \<^verbatim>\<open>B/1.pdf\<close> under a root \<open>r\<close>, in either order of listing, \<^verbatim>\<open>find_pdf_files\<close> followed by
  \<^verbatim>\<open>sort_pdf_files\<close> yields \<^verbatim>\<open>A/1.pdf\<close>, \<^verbatim>\<open>A/2.pdf\<close>, \<^verbatim>\<open>B/1.pdf\<close> under \<open>r\<close>, in this order.
\<close>

theorem ordering_idempotent_on_sorted:
  "(sorted (map (\<lambda>x. (fst x, snd x)) (h p)) \<longrightarrow>
       snd (sort_pdf_files p h) p = h p
     \<and> fst (sort_pdf_files p h) = map (\<lambda>(directory, filename). os_path_join directory filename) (h p))
   \<and> fst (sort_pdf_files p (\<lambda>q. find_pdf_files r scenario_tree))
       = [os_path_join (os_path_join r ''A'') ''1.pdf'',
          os_path_join (os_path_join r ''A'') ''2.pdf'',
          os_path_join (os_path_join r ''B'') ''1.pdf'']
   \<and> fst (sort_pdf_files p (\<lambda>q. find_pdf_files r scenario_tree_reversed))
       = [os_path_join (os_path_join r ''A'') ''1.pdf'',
          os_path_join (os_path_join r ''A'') ''2.pdf'',
          os_path_join (os_path_join r ''B'') ''1.pdf'']"
proof (intro conjI impI)
  assume s: "sorted (map (\<lambda>x. (fst x, snd x)) (h p))"
  show "snd (sort_pdf_files p h) p = h p"
    unfolding sort_pdf_files_sorted [where h = h and r = p, OF s] by simp
  show "fst (sort_pdf_files p h) = map (\<lambda>(directory, filename). os_path_join directory filename) (h p)"
    unfolding sort_pdf_files_sorted [where h = h and r = p, OF s] by simp
next
  have s: "sorted (map (\<lambda>x. (fst x, snd x)) ((\<lambda>q. find_pdf_files r scenario_tree) p))"
    unfolding find_scenario by (rule scenario_sorted)
  show "fst (sort_pdf_files p (\<lambda>q. find_pdf_files r scenario_tree))
       = [os_path_join (os_path_join r ''A'') ''1.pdf'',
          os_path_join (os_path_join r ''A'') ''2.pdf'',
          os_path_join (os_path_join r ''B'') ''1.pdf'']"
    using sort_pdf_files_sorted [where h = "\<lambda>q. find_pdf_files r scenario_tree" and r = p, OF s]
    by (simp add: find_scenario)
next
  have s: "sorted (map (\<lambda>x. (fst x, snd x)) ((\<lambda>q. find_pdf_files r scenario_tree_reversed) p))"
    unfolding find_scenario by (rule scenario_sorted)
  show "fst (sort_pdf_files p (\<lambda>q. find_pdf_files r scenario_tree_reversed))
       = [os_path_join (os_path_join r ''A'') ''1.pdf'',
          os_path_join (os_path_join r ''A'') ''2.pdf'',
          os_path_join (os_path_join r ''B'') ''1.pdf'']"
    using sort_pdf_files_sorted [where h = "\<lambda>q. find_pdf_files r scenario_tree_reversed" and r = p, OF s]
    by (simp add: find_scenario)
qed

theorem ordering_idempotent_on_sorted_witness:
  "sorted (map (\<lambda>x. (fst x, snd x)) [(''A'', ''1.pdf''), (''A'', ''2.pdf''), (''B'', ''1.pdf'')])
   \<and> snd (sort_pdf_files 0 (\<lambda>q. [(''A'', ''1.pdf''), (''A'', ''2.pdf''), (''B'', ''1.pdf'')])) 0
       = [(''A'', ''1.pdf''), (''A'', ''2.pdf''), (''B'', ''1.pdf'')]
   \<and> fst (sort_pdf_files 0 (\<lambda>q. [(''A'', ''1.pdf''), (''A'', ''2.pdf''), (''B'', ''1.pdf'')]))
       = [''A/1.pdf'', ''A/2.pdf'', ''B/1.pdf'']"
proof -
  have s: "sorted (map (\<lambda>x. (fst x, snd x)) [(''A'', ''1.pdf''), (''A'', ''2.pdf''), (''B'', ''1.pdf'')])"
    by (simp add: less_eq_prod_def)
  from ordering_idempotent_on_sorted
    [of "\<lambda>q. [(''A'', ''1.pdf''), (''A'', ''2.pdf''), (''B'', ''1.pdf'')]" 0 "''''"] s
  show ?thesis by (simp add: os_path_join_def)
qed

text \<open>
  Claim C10. \<^verbatim>\<open>sort_pdf_files\<close> sorts the caller's list object in place: after the call
  the list at the reference is the stable sort of what it was, in (directory, filename)
  order and with the same elements as often as before; no other list of the store has
  changed; and the value returned is the joined paths of the list as it now is, in order.
\<close>

theorem sort_pdf_files_in_place:
  "snd (sort_pdf_files p h) p = sort_key (\<lambda>x. (fst x, snd x)) (h p)
   \<and> sorted (map (\<lambda>x. (fst x, snd x)) (snd (sort_pdf_files p h) p))
   \<and> mset (snd (sort_pdf_files p h) p) = mset (h p)
   \<and> (\<forall>q. q \<noteq> p \<longrightarrow> snd (sort_pdf_files p h) q = h q)
   \<and> fst (sort_pdf_files p h)
       = map (\<lambda>(directory, filename). os_path_join directory filename) (snd (sort_pdf_files p h) p)"
  by (simp add: sort_pdf_files_def list_sort_def Let_def sorted_sort_key)

theorem sort_pdf_files_in_place_witness:
  "(1::nat) \<noteq> 0
   \<and> snd (sort_pdf_files 0 (\<lambda>q. if q = 0 then [(''B'', ''1.pdf''), (''A'', ''2.pdf''), (''A'', ''1.pdf'')]
                                else [(''Z'', ''9.pdf''), (''Y'', ''8.pdf'')])) 0
       = [(''A'', ''1.pdf''), (''A'', ''2.pdf''), (''B'', ''1.pdf'')]
   \<and> snd (sort_pdf_files 0 (\<lambda>q. if q = 0 then [(''B'', ''1.pdf''), (''A'', ''2.pdf''), (''A'', ''1.pdf'')]
                                else [(''Z'', ''9.pdf''), (''Y'', ''8.pdf'')])) 1
       = [(''Z'', ''9.pdf''), (''Y'', ''8.pdf'')]
   \<and> fst (sort_pdf_files 0 (\<lambda>q. if q = 0 then [(''B'', ''1.pdf''), (''A'', ''2.pdf''), (''A'', ''1.pdf'')]
                                else [(''Z'', ''9.pdf''), (''Y'', ''8.pdf'')]))
       = [''A/1.pdf'', ''A/2.pdf'', ''B/1.pdf'']"
proof -
  have k: "sort_key (\<lambda>x. (fst x, snd x)) [(''B'', ''1.pdf''), (''A'', ''2.pdf''), (''A'', ''1.pdf'')]
      = [(''A'', ''1.pdf''), (''A'', ''2.pdf''), (''B'', ''1.pdf'')]"
    by (simp add: less_eq_prod_def)
  from sort_pdf_files_in_place
    [of 0 "\<lambda>q. if q = 0 then [(''B'', ''1.pdf''), (''A'', ''2.pdf''), (''A'', ''1.pdf'')]
                else [(''Z'', ''9.pdf''), (''Y'', ''8.pdf'')]"]
  have "snd (sort_pdf_files 0 (\<lambda>q. if q = 0 then [(''B'', ''1.pdf''), (''A'', ''2.pdf''), (''A'', ''1.pdf'')]
                                else [(''Z'', ''9.pdf''), (''Y'', ''8.pdf'')])) 0
       = [(''A'', ''1.pdf''), (''A'', ''2.pdf''), (''B'', ''1.pdf'')]"
    and "snd (sort_pdf_files 0 (\<lambda>q. if q = 0 then [(''B'', ''1.pdf''), (''A'', ''2.pdf''), (''A'', ''1.pdf'')]
                                else [(''Z'', ''9.pdf''), (''Y'', ''8.pdf'')])) 1
       = [(''Z'', ''9.pdf''), (''Y'', ''8.pdf'')]"
    and "fst (sort_pdf_files 0 (\<lambda>q. if q = 0 then [(''B'', ''1.pdf''), (''A'', ''2.pdf''), (''A'', ''1.pdf'')]
                                else [(''Z'', ''9.pdf''), (''Y'', ''8.pdf'')]))
       = map (\<lambda>(directory, filename). os_path_join directory filename)
           [(''A'', ''1.pdf''), (''A'', ''2.pdf''), (''B'', ''1.pdf'')]"
    unfolding k by simp_all
  then show ?thesis by (simp add: os_path_join_def)
qed

section \<open>A batch size of zero\<close>

text \<open>
  Claim C9. With \<^verbatim>\<open>batch_size = 0\<close>, \<^verbatim>\<open>print_pdfs_in_batches\<close> raises \<^verbatim>\<open>ValueError\<close> for
  every list, at the \<^verbatim>\<open>range\<close> call and so before any file is handed to \<^verbatim>\<open>lp\<close>. Nothing
  on the way from the command line checks the value: with \<^verbatim>\<open>--batch-size 0\<close>, a directory
  that holds PDF files and a confirming user, \<^verbatim>\<open>main\<close> reaches that call and the process
  ends with the uncaught \<^verbatim>\<open>ValueError\<close>, nothing printed.
\<close>

theorem zero_batch_size_raises:
  "print_pdfs_in_batches lp pdf_files 0 w = Inl (ValueError, start_run w)
   \<and> attempted (start_run w) = 0
   \<and> trace (start_run w) = []
   \<and> (fs (directory a) = Some t \<and> find_pdf_files (directory a) t \<noteq> [] \<and> \<not> dry_run a
        \<and> lower r \<in> set [''y'', ''yes''] \<and> batch_size a = 0
      \<longrightarrow> main lp fs (Typed r) a w = (Uncaught ValueError, start_run w))"
proof (intro conjI impI)
  show z: "print_pdfs_in_batches lp pdf_files 0 w = Inl (ValueError, start_run w)" for pdf_files
    by (simp add: print_pdfs_in_batches_def py_range_def)
  show "attempted (start_run w) = 0" by (simp add: attempted_def start_run_def)
  show "trace (start_run w) = []" by (simp add: start_run_def)
  assume a: "fs (directory a) = Some t \<and> find_pdf_files (directory a) t \<noteq> [] \<and> \<not> dry_run a
        \<and> lower r \<in> set [''y'', ''yes''] \<and> batch_size a = 0"
  then have "main lp fs (Typed r) a w =
     (case print_pdfs_in_batches lp
             (fst (sort_pdf_files 0 (\<lambda>r. find_pdf_files (directory a) t))) (batch_size a) w of
        Inl (e, s) \<Rightarrow> (Uncaught e, s)
      | Inr s \<Rightarrow> (Exit 0, s))"
    by (intro main_after_run) simp_all
  with a z show "main lp fs (Typed r) a w = (Uncaught ValueError, start_run w)" by simp
qed

theorem zero_batch_size_raises_witness:
  "docs_fs (directory (docs_args\<lparr>batch_size := 0\<rparr>)) = Some (Dir [''a.pdf''] [])
   \<and> find_pdf_files (directory (docs_args\<lparr>batch_size := 0\<rparr>)) (Dir [''a.pdf''] []) \<noteq> []
   \<and> \<not> dry_run (docs_args\<lparr>batch_size := 0\<rparr>)
   \<and> lower ''YES'' \<in> set [''y'', ''yes'']
   \<and> batch_size (docs_args\<lparr>batch_size := 0\<rparr>) = 0
   \<and> main lp_accepts docs_fs (Typed ''YES'') (docs_args\<lparr>batch_size := 0\<rparr>) ()
       = (Uncaught ValueError, start_run ())"
proof -
  have h: "docs_fs (directory (docs_args\<lparr>batch_size := 0\<rparr>)) = Some (Dir [''a.pdf''] [])
   \<and> find_pdf_files (directory (docs_args\<lparr>batch_size := 0\<rparr>)) (Dir [''a.pdf''] []) \<noteq> []
   \<and> \<not> dry_run (docs_args\<lparr>batch_size := 0\<rparr>)
   \<and> lower ''YES'' \<in> set [''y'', ''yes'']
   \<and> batch_size (docs_args\<lparr>batch_size := 0\<rparr>) = 0"
  proof (intro conjI)
    show "lower ''YES'' \<in> set [''y'', ''yes'']" by code_simp
  qed (simp_all add: docs_fs_def docs_args_def docs_found del: find_pdf_files.simps)
  from zero_batch_size_raises
    [of lp_accepts "[]" "()" docs_fs "docs_args\<lparr>batch_size := 0\<rparr>" "Dir [''a.pdf''] []" "''YES''"] h
  show ?thesis by blast
qed

end
